theory Spec2Isabelle
  imports Complex_Main "HOL-Library.Multiset"
begin

section \<open>Machine integers of \<^verbatim>\<open>kthreadpool.hpp\<close>\<close>

text \<open>
  The pool sizes of the source are \<^verbatim>\<open>int\<close> (32-bit two's complement) and the element
  counts are \<^verbatim>\<open>size_t\<close> (64-bit unsigned).  Both are modelled by unbounded numbers
  (\<open>int\<close> and \<open>nat\<close>) with the two conversions of the source written out:
  the implicit conversion of an \<^verbatim>\<open>int\<close> to \<^verbatim>\<open>size_t\<close> in the comparison
  \<^verbatim>\<open>poolSize > elementCount\<close> and the cast \<^verbatim>\<open>(int)elementCount\<close>.
\<close>

definition INT_MIN :: int where
  "INT_MIN = - 2147483648"

definition INT_MAX :: int where
  "INT_MAX = 2147483647"

definition int_to_size_t :: "int \<Rightarrow> nat" where
  "int_to_size_t x = nat (x mod 18446744073709551616)"

definition size_t_to_int :: "nat \<Rightarrow> int" where
  "size_t_to_int n =
     (let r = int n mod 4294967296
      in if r < 2147483648 then r else r - 4294967296)"

section \<open>Pool construction and the effective worker count\<close>

text \<open>
  \<^verbatim>\<open>Iterate\<close> (lines 250-251) and \<^verbatim>\<open>IterateWeighted\<close> (lines 293-294) both run
  \<^verbatim>\<open>if (poolSize == 0) poolSize = GetCpuCoreCount();
  if (poolSize > elementCount) poolSize = (int)elementCount;\<close>
  The comparison is unsigned: \<^verbatim>\<open>poolSize\<close> is converted to \<^verbatim>\<open>size_t\<close>.
  \<open>cores\<close> is what \<^verbatim>\<open>GetCpuCoreCount()\<close> returns.
\<close>

definition clampPoolSize :: "int \<Rightarrow> int \<Rightarrow> nat \<Rightarrow> int" where
  "clampPoolSize cores poolSize elementCount =
     (let p = (if poolSize = 0 then cores else poolSize)
      in if int_to_size_t p > elementCount then size_t_to_int elementCount else p)"

text \<open>
  The constructor \<^verbatim>\<open>KThreadPool(int count, double restTime)\<close> (lines 125-163): a count
  of 0 is replaced by \<^verbatim>\<open>DefaultThreadCount\<close> (or the core count when that is 0), a count
  that is still not positive becomes 1, and the loop pushes \<^verbatim>\<open>count\<close> threads.
  The result is \<^verbatim>\<open>Threads.size()\<close>.
\<close>

definition KThreadPool_count :: "int \<Rightarrow> int \<Rightarrow> int \<Rightarrow> nat" where
  "KThreadPool_count DefaultThreadCount cores count' =
     (let c = (if count' = 0
               then (if DefaultThreadCount = 0 then cores else DefaultThreadCount)
               else count');
          c' = (if c \<le> 0 then 1 else c)
      in nat c')"

text \<open>The number of threads of the ephemeral pool of the two iteration functions.\<close>

definition effectiveWorkers :: "int \<Rightarrow> int \<Rightarrow> int \<Rightarrow> nat \<Rightarrow> nat" where
  "effectiveWorkers DefaultThreadCount cores poolSize elementCount =
     KThreadPool_count DefaultThreadCount cores (clampPoolSize cores poolSize elementCount)"

section \<open>The element dispatcher\<close>

text \<open>
  Pointers are addresses counted in elements, so \<^verbatim>\<open>&data[i]\<close> is \<open>data + i\<close>.
  The sequence handed to the iteration functions is either an array of objects
  (\<^verbatim>\<open>std::is_pointer<T>\<close> is false) of which the model keeps the base address and the
  length, or an array of pointers (\<^verbatim>\<open>T\<close> is a pointer type) of which it keeps the base
  address and the pointer stored at every index.
\<close>

type_synonym addr = nat

datatype seqdata = Objects addr nat | Pointers addr "addr list"

fun base_ptr :: "seqdata \<Rightarrow> addr" where
  "base_ptr (Objects d n) = d"
| "base_ptr (Pointers d ps) = d"

fun elementCount :: "seqdata \<Rightarrow> nat" where
  "elementCount (Objects d n) = n"
| "elementCount (Pointers d ps) = length ps"

datatype error = CompileError | OutOfBounds

text \<open>
  The pointer the dispatcher and the weight function receive for index \<open>i\<close>:
  \<^verbatim>\<open>&data[i]\<close> for objects, the stored pointer \<^verbatim>\<open>data[i]\<close> for pointers.  Reading
  past the end of the array is undefined in the source and an error here.
\<close>

fun elem_ptr :: "seqdata \<Rightarrow> nat \<Rightarrow> error + addr" where
  "elem_ptr (Objects d n) i = Inr (d + i)"
| "elem_ptr (Pointers d ps) i = (if i < length ps then Inr (ps ! i) else Inl OutOfBounds)"

text \<open>
  The third positional argument of the widest shape: \<^verbatim>\<open>data\<close> for objects (line 359),
  \<^verbatim>\<open>*data\<close>, the pointer stored at index 0, for pointers (line 350).
\<close>

fun seq_arg :: "seqdata \<Rightarrow> error + addr" where
  "seq_arg (Objects d n) = Inr d"
| "seq_arg (Pointers d ps) = (if 0 < length ps then Inr (ps ! 0) else Inl OutOfBounds)"

text \<open>
  What \<^verbatim>\<open>std::is_invocable\<close> answers for the callback and the three parameter lists
  tried by \<^verbatim>\<open>IterCallback\<close> (lines 349-354 and 358-363), extra arguments included.
\<close>

record Functor =
  invocable_ptr_idx_seq :: bool
  invocable_ptr_idx :: bool
  invocable_ptr :: bool

datatype 'x arg = PtrArg addr | IdxArg nat | ExtraArg 'x

text \<open>
  \<^verbatim>\<open>IterCallback\<close> (lines 344-365).  The result is the argument list of the one call of
  \<^verbatim>\<open>func\<close> it makes.  The last branch is instantiated whenever the first two are not, so
  a callback that accepts none of the three shapes does not compile.
\<close>

definition IterCallback :: "Functor \<Rightarrow> seqdata \<Rightarrow> nat \<Rightarrow> 'x list \<Rightarrow> error + 'x arg list" where
  "IterCallback func data i args =
     (if invocable_ptr_idx_seq func then
        (case elem_ptr data i of Inl e \<Rightarrow> Inl e | Inr p \<Rightarrow>
           (case seq_arg data of Inl e \<Rightarrow> Inl e | Inr q \<Rightarrow>
              Inr ([PtrArg p, IdxArg i, PtrArg q] @ map ExtraArg args)))
      else if invocable_ptr_idx func then
        (case elem_ptr data i of Inl e \<Rightarrow> Inl e | Inr p \<Rightarrow>
           Inr ([PtrArg p, IdxArg i] @ map ExtraArg args))
      else if invocable_ptr func then
        (case elem_ptr data i of Inl e \<Rightarrow> Inl e | Inr p \<Rightarrow>
           Inr ([PtrArg p] @ map ExtraArg args))
      else Inl CompileError)"

section \<open>Jobs\<close>

text \<open>
  \<^verbatim>\<open>ThreadJob\<close> (lines 47-71).  The callables the pool code itself wraps are the two
  lambdas \<^verbatim>\<open>iterCallback\<close> (line 236) and \<^verbatim>\<open>iterSection\<close> (line 330); any other
  callable is a user function, named by a number.  Of the bound arguments the model keeps
  the \<^verbatim>\<open>size_t\<close> ones (the index, or the start and end of a section); the pool, the
  callback, the data pointer and the extra arguments are the same for all jobs of a call.
\<close>

datatype callable = iterCallback | iterSection | UserFunction nat

record ThreadJob =
  Function :: callable
  Args :: "nat list"
  bDeleteOnFinish :: bool

text \<open>The constructor of line 54 leaves \<^verbatim>\<open>bDeleteOnFinish\<close> at its initialiser, true.\<close>

definition ThreadJob_new :: "callable \<Rightarrow> nat list \<Rightarrow> ThreadJob" where
  "ThreadJob_new func args = \<lparr>Function = func, Args = args, bDeleteOnFinish = True\<rparr>"

text \<open>The constructor of line 60 takes the flag.\<close>

definition ThreadJob_new_flag :: "bool \<Rightarrow> callable \<Rightarrow> nat list \<Rightarrow> ThreadJob" where
  "ThreadJob_new_flag deleteOnFinish func args =
     \<lparr>Function = func, Args = args, bDeleteOnFinish = deleteOnFinish\<rparr>"

text \<open>
  The indices for which \<^verbatim>\<open>Execute\<close> of a job reaches \<^verbatim>\<open>IterCallback\<close>, in order: the
  one index of an \<^verbatim>\<open>iterCallback\<close> job, the loop
  \<^verbatim>\<open>for (size_t i = start; i < end; i++)\<close> of an \<^verbatim>\<open>iterSection\<close> job.
\<close>

definition callback_indices :: "ThreadJob \<Rightarrow> nat list" where
  "callback_indices job =
     (case (Function job, Args job) of
        (iterCallback, [i]) \<Rightarrow> [i]
      | (iterSection, [start, end']) \<Rightarrow> [start ..< end']
      | _ \<Rightarrow> [])"

section \<open>The sections of \<^verbatim>\<open>IterateWeighted\<close>\<close>

record IterSection =
  Start :: nat
  End :: nat

text \<open>
  Weights, the total, the target and the accumulator are \<^verbatim>\<open>double\<close> in the source.
  The model takes the arithmetic as a parameter: the zero, the addition, the division of
  the total by \<^verbatim>\<open>pool.Threads.size()\<close> and the comparison \<^verbatim>\<open><=\<close>.  What is
  proved for every arithmetic holds for the doubles of any platform, whatever they round
  to and however they compare a NaN.
\<close>

record 'w arith =
  w_zero :: 'w
  w_add :: "'w \<Rightarrow> 'w \<Rightarrow> 'w"
  w_div :: "'w \<Rightarrow> nat \<Rightarrow> 'w"
  w_le :: "'w \<Rightarrow> 'w \<Rightarrow> bool"

text \<open>
  The arithmetic of the rationals, for evaluation on inputs on which the doubles of the
  source are exact.
\<close>

definition exact :: "rat arith" where
  "exact = \<lparr>w_zero = 0, w_add = (\<lambda>x y. x + y), w_div = (\<lambda>x n. x / of_nat n),
            w_le = (\<lambda>x y. x \<le> y)\<rparr>"

text \<open>
  The state of the scan; \<open>weightCalls\<close> counts the invocations of the weight function.
\<close>

record 'w scan_state =
  accumWeight :: 'w
  sectionIndex :: nat
  newStart :: nat
  sections :: "IterSection list"
  weightCalls :: nat

text \<open>
  The first loop (lines 284-291) over the indices still to come: \<open>total\<close> is
  accumulated from the left.  The second component of the accumulator counts the calls
  of the weight function the loop has made: one for every element it has read.
\<close>

fun total_weight ::
    "'w arith \<Rightarrow> (addr \<Rightarrow> 'w) \<Rightarrow> seqdata \<Rightarrow> nat list \<Rightarrow> 'w \<times> nat
      \<Rightarrow> error + 'w \<times> nat" where
  "total_weight ar weightFunc data [] acc = Inr acc"
| "total_weight ar weightFunc data (i # is) acc =
     (case elem_ptr data i of Inl e \<Rightarrow> Inl e
      | Inr p \<Rightarrow>
          total_weight ar weightFunc data is (w_add ar (fst acc) (weightFunc p), snd acc + 1))"

text \<open>
  The scan (lines 304-328), from index \<open>i\<close>.  A write to \<^verbatim>\<open>sections[sectionIndex]\<close>
  past the end of the vector is undefined in the source and an error here.
\<close>

function scan ::
    "'w arith \<Rightarrow> (addr \<Rightarrow> 'w) \<Rightarrow> seqdata \<Rightarrow> 'w \<Rightarrow> nat \<Rightarrow> 'w scan_state
      \<Rightarrow> error + 'w scan_state" where
  "scan ar weightFunc data targetWeight i st =
     (if i < elementCount data then
        (case elem_ptr data i of Inl e \<Rightarrow> Inl e | Inr p \<Rightarrow>
          (let objWeight = weightFunc p;
               st = st\<lparr>weightCalls := weightCalls st + 1\<rparr>
           in if i < elementCount data - 1
                 \<and> w_le ar (w_add ar (accumWeight st) objWeight) targetWeight
              then scan ar weightFunc data targetWeight (i + 1)
                     (st\<lparr>accumWeight := w_add ar (accumWeight st) objWeight\<rparr>)
              else if sectionIndex st < length (sections st)
              then scan ar weightFunc data targetWeight (i + 1)
                     (st\<lparr>sections := (sections st)
                            [sectionIndex st := \<lparr>Start = newStart st, End = i\<rparr>],
                         accumWeight := w_zero ar,
                         newStart := i + 1,
                         sectionIndex := sectionIndex st + 1\<rparr>)
              else Inl OutOfBounds))
      else Inr st)"
  by pat_completeness auto
termination
  by (relation "measure (\<lambda>(ar, weightFunc, data, targetWeight, i, st). elementCount data - i)")
    auto

text \<open>
  \<^verbatim>\<open>IterateWeighted\<close> up to the submission of its jobs (lines 283-341): the number of
  threads of the pool, the sections, the jobs in the order in which they are handed to
  \<^verbatim>\<open>AddFunctionToPool\<close> (one per entry of \<^verbatim>\<open>sections\<close>), and the number of weight
  calls: those of the first loop and those of the scan.  \<^verbatim>\<open>AddFunctionToPool\<close>
  (line 180) builds its job with the constructor of line 54.
\<close>

record weighted_plan =
  threadCount :: nat
  ranges :: "IterSection list"
  jobs :: "ThreadJob list"
  weightCallCount :: nat

definition IterateWeighted_plan ::
    "'w arith \<Rightarrow> int \<Rightarrow> int \<Rightarrow> (addr \<Rightarrow> 'w) \<Rightarrow> int \<Rightarrow> seqdata \<Rightarrow> error + weighted_plan" where
  "IterateWeighted_plan ar DefaultThreadCount cores weightFunc poolSize data =
     (case total_weight ar weightFunc data [0 ..< elementCount data] (w_zero ar, 0) of
        Inl e \<Rightarrow> Inl e
      | Inr (total', calls) \<Rightarrow>
        (let n = effectiveWorkers DefaultThreadCount cores poolSize (elementCount data);
             targetWeight = w_div ar total' n;
             st0 = \<lparr>accumWeight = w_zero ar, sectionIndex = 0, newStart = 0,
                    sections = replicate n \<lparr>Start = 0, End = 0\<rparr>,
                    weightCalls = calls\<rparr>
         in case scan ar weightFunc data targetWeight 0 st0 of Inl e \<Rightarrow> Inl e
            | Inr st \<Rightarrow>
                Inr \<lparr>threadCount = n,
                     ranges = sections st,
                     jobs = map (\<lambda>s. ThreadJob_new iterSection [Start s, End s]) (sections st),
                     weightCallCount = weightCalls st\<rparr>))"

text \<open>The indices at which the jobs of a plan call the dispatcher, job after job.\<close>

definition visited :: "weighted_plan \<Rightarrow> nat list" where
  "visited p = concat (map callback_indices (jobs p))"

section \<open>The pool\<close>

text \<open>
  The pool is shared by its worker threads, the thread that owns it and any thread that
  polls \<^verbatim>\<open>WaitForFinish\<close>.  \<^verbatim>\<open>PendingJobs\<close> is only touched under
  \<^verbatim>\<open>QueueMutex\<close>, and \<^verbatim>\<open>ActiveJobCount\<close> and \<^verbatim>\<open>bDestroyingPool\<close> are
  sequentially consistent atomics, so an execution of the source is an interleaving of
  the steps below: each step is one critical section or one atomic access of one thread.

  A worker (the lambda \<^verbatim>\<open>waitForJob\<close>, lines 136-157) is at one of five places:
  about to call \<^verbatim>\<open>TakeNewJob\<close>; inside \<^verbatim>\<open>Execute\<close> of the job it claimed; back from
  \<^verbatim>\<open>Execute\<close> and about to decrement \<^verbatim>\<open>ActiveJobCount\<close>; back from a
  \<^verbatim>\<open>TakeNewJob\<close> that found nothing and about to read \<^verbatim>\<open>IsPendingDestroy\<close>; returned.
  The sleep between a failed dequeue and the next one changes nothing in the pool and is
  no step.  A thread the constructor has not started yet is a thread at its first place
  that has not been scheduled, so all threads exist from the start.
\<close>

datatype worker_pc = Polling | Executing ThreadJob | Finishing | Checking | Exited

text \<open>
  The owning thread: about to push a batch of jobs under one lock (\<^verbatim>\<open>Iterate\<close>, lines
  259-265); about to call \<^verbatim>\<open>AddFunctionToPool\<close> for each job of a list and then to run
  the destructor (\<^verbatim>\<open>IterateWeighted\<close>, lines 338-342; with the empty list, any owner
  whose next step is the destructor); inside the destructor, the flag set, about to join
  thread \<open>k\<close> (lines 168-169); past the destructor.
\<close>

datatype owner_pc = Bulk "ThreadJob list" | Submitting "ThreadJob list" | Joining nat | Destroyed

text \<open>
  A thread in \<^verbatim>\<open>WaitForFinish\<close> (line 224): not called yet; about to evaluate
  \<^verbatim>\<open>GetPendingJobCount() > 0\<close>; about to evaluate \<^verbatim>\<open>ActiveJobCount > 0\<close>; returned.
\<close>

datatype waiter_pc = NotWaiting | ReadPending | ReadActive | Returned

text \<open>
  \<open>executed\<close> and \<open>deleted\<close> are ghost fields: the jobs whose \<^verbatim>\<open>Execute\<close> has
  returned, in order, and those of them that have freed themselves (\<^verbatim>\<open>delete this\<close>).
  \<^verbatim>\<open>ActiveJobCount\<close> is a \<^verbatim>\<open>size_t\<close>; it is incremented before each decrement by
  the same thread and bounded by the number of threads, so it is a \<open>nat\<close> here.
\<close>

record pool =
  PendingJobs :: "ThreadJob list"
  ActiveJobCount :: nat
  bDestroyingPool :: bool
  Threads :: "worker_pc list"
  owner :: owner_pc
  waiter :: waiter_pc
  executed :: "ThreadJob list"
  deleted :: "ThreadJob list"

text \<open>The pool as the constructor leaves it (lines 125-163).\<close>

definition KThreadPool :: "int \<Rightarrow> int \<Rightarrow> int \<Rightarrow> pool" where
  "KThreadPool DefaultThreadCount cores count' =
     \<lparr>PendingJobs = [], ActiveJobCount = 0, bDestroyingPool = False,
      Threads = replicate (KThreadPool_count DefaultThreadCount cores count') Polling,
      owner = Submitting [], waiter = NotWaiting, executed = [], deleted = []\<rparr>"

text \<open>\<^verbatim>\<open>AddJobToPool\<close> (lines 183-187) and \<^verbatim>\<open>AddFunctionToPool\<close> (lines 177-181).\<close>

definition AddJobToPool :: "ThreadJob \<Rightarrow> pool \<Rightarrow> pool" where
  "AddJobToPool job s = s\<lparr>PendingJobs := PendingJobs s @ [job]\<rparr>"

definition AddFunctionToPool :: "callable \<Rightarrow> nat list \<Rightarrow> pool \<Rightarrow> pool" where
  "AddFunctionToPool func args s = AddJobToPool (ThreadJob_new func args) s"

definition GetPendingJobCount :: "pool \<Rightarrow> nat" where
  "GetPendingJobCount s = length (PendingJobs s)"

text \<open>\<^verbatim>\<open>PendingJobs.erase(PendingJobs.begin() + k)\<close>.\<close>

definition erase :: "nat \<Rightarrow> 'a list \<Rightarrow> 'a list" where
  "erase k xs = take k xs @ drop (Suc k) xs"

text \<open>The critical section of \<^verbatim>\<open>TakeNewJob\<close> (lines 193-203).\<close>

definition claim :: "pool \<Rightarrow> ThreadJob option \<times> pool" where
  "claim s =
     (if length (PendingJobs s) > 0
      then (Some (PendingJobs s ! (length (PendingJobs s) - 1)),
            s\<lparr>PendingJobs := erase (length (PendingJobs s) - 1) (PendingJobs s),
              ActiveJobCount := ActiveJobCount s + 1\<rparr>)
      else (None, s))"

text \<open>
  \<^verbatim>\<open>Execute\<close> (lines 66-70) as far as the pool sees it: the body has run, and the job
  has freed itself if its flag says so.  The calls of the dispatcher the body makes are
  \<open>callback_indices\<close> of the job.
\<close>

definition Execute :: "ThreadJob \<Rightarrow> pool \<Rightarrow> pool" where
  "Execute job s =
     (let s' = s\<lparr>executed := executed s @ [job]\<rparr>
      in if bDeleteOnFinish job then s'\<lparr>deleted := deleted s' @ [job]\<rparr> else s')"

text \<open>\<^verbatim>\<open>TakeNewJob\<close> (lines 189-214) run by one thread while no other thread runs.\<close>

definition TakeNewJob :: "pool \<Rightarrow> bool \<times> pool" where
  "TakeNewJob s =
     (case claim s of
        (Some job, s') \<Rightarrow>
          (let s'' = Execute job s'
           in (True, s''\<lparr>ActiveJobCount := ActiveJobCount s'' - 1\<rparr>))
      | (None, s') \<Rightarrow> (False, s'))"

text \<open>One step of worker \<open>i\<close>; \<open>None\<close> when the thread does not exist or has returned.\<close>

definition worker_step :: "nat \<Rightarrow> pool \<Rightarrow> pool option" where
  "worker_step i s =
     (if i < length (Threads s) then
        (case Threads s ! i of
           Polling \<Rightarrow>
             (case claim s of
                (Some job, s') \<Rightarrow> Some (s'\<lparr>Threads := (Threads s')[i := Executing job]\<rparr>)
              | (None, s') \<Rightarrow> Some (s'\<lparr>Threads := (Threads s')[i := Checking]\<rparr>))
         | Executing job \<Rightarrow> Some ((Execute job s)\<lparr>Threads := (Threads s)[i := Finishing]\<rparr>)
         | Finishing \<Rightarrow>
             Some (s\<lparr>ActiveJobCount := ActiveJobCount s - 1, Threads := (Threads s)[i := Polling]\<rparr>)
         | Checking \<Rightarrow>
             (if \<not> bDestroyingPool s
              then Some (s\<lparr>Threads := (Threads s)[i := Polling]\<rparr>)
              else Some (s\<lparr>Threads := (Threads s)[i := Exited]\<rparr>))
         | Exited \<Rightarrow> None)
      else None)"

text \<open>
  One step of the owning thread; \<open>None\<close> when \<^verbatim>\<open>join\<close> blocks or the pool is gone.
  The destructor (lines 165-170) sets the flag and then joins the threads in order.
\<close>

definition owner_step :: "pool \<Rightarrow> pool option" where
  "owner_step s =
     (case owner s of
        Bulk js \<Rightarrow> Some (s\<lparr>PendingJobs := PendingJobs s @ js, owner := Submitting []\<rparr>)
      | Submitting (job # js) \<Rightarrow> Some ((AddJobToPool job s)\<lparr>owner := Submitting js\<rparr>)
      | Submitting [] \<Rightarrow> Some (s\<lparr>bDestroyingPool := True, owner := Joining 0\<rparr>)
      | Joining k \<Rightarrow>
          (if k < length (Threads s)
           then (if Threads s ! k = Exited then Some (s\<lparr>owner := Joining (k + 1)\<rparr>) else None)
           else Some (s\<lparr>owner := Destroyed\<rparr>))
      | Destroyed \<Rightarrow> None)"

text \<open>One step of \<^verbatim>\<open>WaitForFinish\<close> (lines 222-225); \<open>||\<close> evaluates left to right.\<close>

definition waiter_step :: "pool \<Rightarrow> pool option" where
  "waiter_step s =
     (case waiter s of
        NotWaiting \<Rightarrow> Some (s\<lparr>waiter := ReadPending\<rparr>)
      | ReadPending \<Rightarrow>
          (if GetPendingJobCount s > 0 then Some s else Some (s\<lparr>waiter := ReadActive\<rparr>))
      | ReadActive \<Rightarrow>
          (if ActiveJobCount s > 0 then Some (s\<lparr>waiter := ReadPending\<rparr>)
           else Some (s\<lparr>waiter := Returned\<rparr>))
      | Returned \<Rightarrow> None)"

text \<open>
  The scheduler's choices.  \<open>Producer func args\<close> is a call of \<^verbatim>\<open>AddFunctionToPool\<close>
  by any thread that holds the pool, a running job body included.
\<close>

datatype action = Worker nat | Owner | Waiter | Producer callable "nat list"

fun step :: "action \<Rightarrow> pool \<Rightarrow> pool option" where
  "step (Worker i) s = worker_step i s"
| "step Owner s = owner_step s"
| "step Waiter s = waiter_step s"
| "step (Producer func args) s =
     (if owner s = Destroyed then None else Some (AddFunctionToPool func args s))"

fun run :: "action list \<Rightarrow> pool \<Rightarrow> pool option" where
  "run [] s = Some s"
| "run (a # as) s = (case step a s of None \<Rightarrow> None | Some s' \<Rightarrow> run as s')"

fun is_producer :: "action \<Rightarrow> bool" where
  "is_producer (Producer func args) = True"
| "is_producer a = False"

text \<open>The indices for which the dispatcher has been called, in order.\<close>

definition invoked :: "pool \<Rightarrow> nat list" where
  "invoked s = concat (map callback_indices (executed s))"

section \<open>The two iteration functions on the pool\<close>

text \<open>
  \<^verbatim>\<open>Iterate\<close> (lines 233-267) at the point where its pool exists and its jobs are built
  with the constructor of line 60 and the flag \<^verbatim>\<open>false\<close> (line 256): the next steps of
  the owner are the bulk push, the destructor and the return.
\<close>

definition Iterate :: "int \<Rightarrow> int \<Rightarrow> int \<Rightarrow> seqdata \<Rightarrow> pool" where
  "Iterate DefaultThreadCount cores poolSize data =
     (KThreadPool DefaultThreadCount cores (clampPoolSize cores poolSize (elementCount data)))
       \<lparr>owner := Bulk (map (\<lambda>i. ThreadJob_new_flag False iterCallback [i])
                         [0 ..< elementCount data])\<rparr>"

text \<open>\<^verbatim>\<open>IterateWeighted\<close> (lines 275-342) at the point where its sections are computed.\<close>

definition IterateWeighted ::
    "'w arith \<Rightarrow> int \<Rightarrow> int \<Rightarrow> (addr \<Rightarrow> 'w) \<Rightarrow> int \<Rightarrow> seqdata \<Rightarrow> error + pool" where
  "IterateWeighted ar DefaultThreadCount cores weightFunc poolSize data =
     (case IterateWeighted_plan ar DefaultThreadCount cores weightFunc poolSize data of
        Inl e \<Rightarrow> Inl e
      | Inr p \<Rightarrow>
          Inr ((KThreadPool DefaultThreadCount cores
                  (clampPoolSize cores poolSize (elementCount data)))
                \<lparr>owner := Submitting (jobs p)\<rparr>))"

section \<open>Predicates on pool states\<close>

text \<open>A worker that holds a job: it is counted by \<^verbatim>\<open>ActiveJobCount\<close>.\<close>

fun busy :: "worker_pc \<Rightarrow> bool" where
  "busy (Executing job) = True"
| "busy Finishing = True"
| "busy w = False"

text \<open>The owner has no job left to push.\<close>

fun pushes_nothing :: "owner_pc \<Rightarrow> bool" where
  "pushes_nothing (Bulk js) = False"
| "pushes_nothing (Submitting js) = (js = [])"
| "pushes_nothing (Joining k) = True"
| "pushes_nothing Destroyed = True"

text \<open>The owner has not entered the destructor.\<close>

fun before_destructor :: "owner_pc \<Rightarrow> bool" where
  "before_destructor (Bulk js) = True"
| "before_destructor (Submitting js) = True"
| "before_destructor (Joining k) = False"
| "before_destructor Destroyed = False"

text \<open>The jobs the owner still holds.\<close>

fun owner_jobs :: "owner_pc \<Rightarrow> ThreadJob list" where
  "owner_jobs (Bulk js) = js"
| "owner_jobs (Submitting js) = js"
| "owner_jobs (Joining k) = []"
| "owner_jobs Destroyed = []"

text \<open>The job a worker holds.\<close>

fun worker_jobs :: "worker_pc \<Rightarrow> ThreadJob list" where
  "worker_jobs (Executing job) = [job]"
| "worker_jobs w = []"

text \<open>Every job of the pool, wherever it is: queued, held, executed or not yet pushed.\<close>

definition all_jobs :: "pool \<Rightarrow> ThreadJob list" where
  "all_jobs s = PendingJobs s @ executed s @ owner_jobs (owner s)
                  @ concat (map worker_jobs (Threads s))"

text \<open>
  What holds once the owner is inside the destructor: the flag is set, and the threads
  joined so far have returned.
\<close>

definition dtor_inv :: "pool \<Rightarrow> bool" where
  "dtor_inv s =
     (case owner s of
        Joining k \<Rightarrow> bDestroyingPool s \<and> k \<le> length (Threads s)
                       \<and> (\<forall>i<k. Threads s ! i = Exited)
      | Destroyed \<Rightarrow> bDestroyingPool s \<and> (\<forall>i<length (Threads s). Threads s ! i = Exited)
      | _ \<Rightarrow> True)"

text \<open>\<^verbatim>\<open>ActiveJobCount\<close> is the number of workers that hold a job.\<close>

definition busy_inv :: "pool \<Rightarrow> bool" where
  "busy_inv s \<longleftrightarrow> ActiveJobCount s = length (filter busy (Threads s))"

text \<open>
  What the thread in \<^verbatim>\<open>WaitForFinish\<close> knows while nothing is enqueued: after its read
  of an empty queue the queue is empty, and after its return the counter is 0 as well.
\<close>

definition wait_inv :: "pool \<Rightarrow> bool" where
  "wait_inv s \<longleftrightarrow>
     (waiter s = ReadActive \<longrightarrow> PendingJobs s = [])
     \<and> (waiter s = Returned \<longrightarrow> PendingJobs s = [] \<and> ActiveJobCount s = 0)"

section \<open>A schedule that drains the pool\<close>

text \<open>
  The owner submits every job and sets the flag, worker 0 takes and executes the jobs
  one after the other, every worker then finds the queue empty and the flag set and
  returns, and the owner joins them all.
\<close>

definition drain_schedule :: "nat \<Rightarrow> nat \<Rightarrow> action list" where
  "drain_schedule n m =
     replicate m Owner @ [Owner]
     @ concat (replicate m [Worker 0, Worker 0, Worker 0])
     @ concat (map (\<lambda>i. [Worker i, Worker i]) [0 ..< n])
     @ replicate (Suc n) Owner"


section \<open>The work left inside the destructor\<close>

text \<open>
  The number of steps a worker has left when it finds nothing more to do: it finishes
  the job it holds, decrements the counter, looks at the queue, reads the flag and
  returns.  Every queued job adds the three steps of the worker that takes it, and the
  owner has one join per thread left and the last step of the destructor.
\<close>

fun pc_weight :: "worker_pc \<Rightarrow> nat" where
  "pc_weight (Executing job) = 4"
| "pc_weight Finishing = 3"
| "pc_weight Polling = 2"
| "pc_weight Checking = 1"
| "pc_weight Exited = 0"

fun owner_weight :: "nat \<Rightarrow> owner_pc \<Rightarrow> nat" where
  "owner_weight n (Joining k) = Suc (n - k)"
| "owner_weight n pc = 0"

definition remaining :: "pool \<Rightarrow> nat" where
  "remaining s = 3 * length (PendingJobs s) + sum_list (map pc_weight (Threads s))
                   + owner_weight (length (Threads s)) (owner s)"

text \<open>The steps of the threads of the pool itself.\<close>

fun is_thread :: "action \<Rightarrow> bool" where
  "is_thread (Worker i) = True"
| "is_thread Owner = True"
| "is_thread a = False"
section \<open>Properties of the effective worker count\<close>

lemma int_to_size_t_nonneg:
  "0 \<le> x \<Longrightarrow> x \<le> INT_MAX \<Longrightarrow> int_to_size_t x = nat x"
  by (simp add: int_to_size_t_def INT_MAX_def)

lemma int_to_size_t_neg:
  assumes "INT_MIN \<le> x" and "x < 0"
  shows "int (int_to_size_t x) = 18446744073709551616 + x"
proof -
  have "x mod 18446744073709551616 = (x + 18446744073709551616) mod 18446744073709551616"
    by simp
  also have "\<dots> = x + 18446744073709551616"
    using assms by (intro mod_pos_pos_trivial) (simp_all add: INT_MIN_def)
  finally show ?thesis
    using assms by (simp add: int_to_size_t_def INT_MIN_def)
qed

lemma size_t_to_int_small:
  "int n \<le> INT_MAX \<Longrightarrow> size_t_to_int n = int n"
  by (simp add: size_t_to_int_def INT_MAX_def Let_def)

lemma clampPoolSize_pos:
  assumes "0 < p" and "p \<le> INT_MAX" and "poolSize = 0 \<and> cores = p \<or> poolSize = p"
  shows "clampPoolSize cores poolSize L = min p (int L)"
proof -
  have p: "(if poolSize = 0 then cores else poolSize) = p"
    using assms by auto
  have c: "int_to_size_t p = nat p"
    using assms by (simp add: int_to_size_t_nonneg)
  show ?thesis
  proof (cases "nat p > L")
    case True
    then have "int L \<le> INT_MAX" using assms by linarith
    then show ?thesis
      using True by (simp add: clampPoolSize_def p c size_t_to_int_small)
  next
    case False
    then show ?thesis
      by (simp add: clampPoolSize_def p c)
  qed
qed

lemma KThreadPool_count_pos:
  "0 < c \<Longrightarrow> KThreadPool_count d cores c = nat c"
  by (simp add: KThreadPool_count_def)

lemma KThreadPool_count_ge1: "1 \<le> KThreadPool_count d cores c"
  by (auto simp: KThreadPool_count_def Let_def)

text \<open>
  Claim C3, as amended: the ephemeral pool always has at least one thread; and for a
  requested worker count \<open>W \<ge> 0\<close>, a positive host core count and a non-empty sequence
  (\<open>L > 0\<close>) it has exactly \<open>min W L\<close> threads when \<open>W > 0\<close> and \<open>min cores L\<close>
  threads when \<open>W = 0\<close>.
\<close>

theorem effectiveWorkers_nonempty:
  "1 \<le> effectiveWorkers d cores W L
   \<and> (0 \<le> W \<and> W \<le> INT_MAX \<and> 0 < cores \<and> cores \<le> INT_MAX \<and> 0 < L \<longrightarrow>
        int (effectiveWorkers d cores W L) =
          (if W = 0 then min cores (int L) else min W (int L)))"
proof (intro conjI impI)
  show "1 \<le> effectiveWorkers d cores W L"
    using KThreadPool_count_ge1 [of d cores "clampPoolSize cores W L"]
    by (simp add: effectiveWorkers_def)
next
  assume a: "0 \<le> W \<and> W \<le> INT_MAX \<and> 0 < cores \<and> cores \<le> INT_MAX \<and> 0 < L"
  define p where "p = (if W = 0 then cores else W)"
  have p: "0 < p" "p \<le> INT_MAX" "W = 0 \<and> cores = p \<or> W = p"
    using a by (auto simp: p_def)
  have "clampPoolSize cores W L = min p (int L)"
    by (rule clampPoolSize_pos [OF p])
  moreover have "0 < min p (int L)"
    using p(1) a by simp
  ultimately have "effectiveWorkers d cores W L = nat (min p (int L))"
    by (simp add: effectiveWorkers_def KThreadPool_count_pos)
  then show "int (effectiveWorkers d cores W L) =
      (if W = 0 then min cores (int L) else min W (int L))"
    using p(1) a by (auto simp: p_def)
qed

theorem effectiveWorkers_nonempty_witness:
  "(0::int) \<le> 4 \<and> 4 \<le> INT_MAX \<and> (0::int) < 8 \<and> 8 \<le> INT_MAX \<and> (0::nat) < 3
   \<and> int (effectiveWorkers 0 8 4 3) = 3 \<and> int (effectiveWorkers 0 8 0 20) = 8
   \<and> 1 \<le> effectiveWorkers 0 8 4 0"
  using effectiveWorkers_nonempty [of 0 8 4 3] effectiveWorkers_nonempty [of 0 8 0 20]
    effectiveWorkers_nonempty [of 0 8 4 0]
  by (simp add: INT_MAX_def)

text \<open>
  Claim C3 as stated fails for the empty sequence: 4 workers requested for 0 elements on
  a host with 8 cores give a pool of 8 threads, which exceeds \<open>min 4 0 = 0\<close>.
\<close>

theorem effectiveWorkers_empty_counterexample:
  "effectiveWorkers 0 8 4 0 = 8 \<and> \<not> int (effectiveWorkers 0 8 4 0) \<le> min 4 (int 0)"
  by (simp add: effectiveWorkers_def clampPoolSize_def KThreadPool_count_def
      int_to_size_t_def size_t_to_int_def)

text \<open>
  Claim C9, as amended: for a negative requested worker count and a sequence of
  \<open>0 < L \<le> INT_MAX\<close> elements, the ephemeral pool of \<^verbatim>\<open>Iterate\<close> and of
  \<^verbatim>\<open>IterateWeighted\<close> has exactly \<open>L\<close> threads.
\<close>

theorem effectiveWorkers_negative:
  assumes "INT_MIN \<le> W" and "W < 0" and "0 < L" and "int L \<le> INT_MAX"
  shows "effectiveWorkers d cores W L = L"
proof -
  have "int (int_to_size_t W) = 18446744073709551616 + W"
    using assms by (simp add: int_to_size_t_neg)
  then have "int (int_to_size_t W) > int L"
    using assms by (simp add: INT_MIN_def INT_MAX_def)
  then have "int_to_size_t W > L" by linarith
  then have "clampPoolSize cores W L = int L"
    using assms by (simp add: clampPoolSize_def size_t_to_int_small)
  then show ?thesis
    using assms by (simp add: effectiveWorkers_def KThreadPool_count_pos)
qed

theorem effectiveWorkers_negative_witness:
  "effectiveWorkers 0 8 (- 1) 5 = 5"
  using effectiveWorkers_negative [of "- 1" 5 0 8]
  by (simp add: INT_MIN_def INT_MAX_def)

text \<open>
  Claim C9 as stated fails for a sequence of \<open>2 ^ 31\<close> elements: the cast
  \<^verbatim>\<open>(int)elementCount\<close> yields \<open>INT_MIN\<close>, which the constructor replaces by 1.
\<close>

theorem effectiveWorkers_negative_counterexample:
  "effectiveWorkers 0 8 (- 1) 2147483648 = 1"
  by (simp add: effectiveWorkers_def clampPoolSize_def KThreadPool_count_def
      int_to_size_t_def size_t_to_int_def)


section \<open>The element dispatcher: claim C4\<close>

text \<open>
  Claim C4, as amended: the dispatcher tries the three shapes in the order
  (pointer, index, sequence), (pointer, index), (pointer) and appends the extra arguments
  after the positional ones in each.  For a sequence of objects the first argument is
  \<^verbatim>\<open>&data[i]\<close> and the third argument of the widest shape is the base pointer of the
  sequence; for a sequence of pointers the first argument is the pointer stored at index
  \<open>i\<close> and the third argument of the widest shape is the pointer stored at index 0.
\<close>

theorem IterCallback_shapes:
  "IterCallback func (Objects d n) i args =
     (if invocable_ptr_idx_seq func
      then Inr ([PtrArg (d + i), IdxArg i, PtrArg (base_ptr (Objects d n))] @ map ExtraArg args)
      else if invocable_ptr_idx func
      then Inr ([PtrArg (d + i), IdxArg i] @ map ExtraArg args)
      else if invocable_ptr func
      then Inr ([PtrArg (d + i)] @ map ExtraArg args)
      else Inl CompileError)
   \<and> (i < length ps \<longrightarrow>
        IterCallback func (Pointers e ps) i args =
          (if invocable_ptr_idx_seq func
           then Inr ([PtrArg (ps ! i), IdxArg i, PtrArg (ps ! 0)] @ map ExtraArg args)
           else if invocable_ptr_idx func
           then Inr ([PtrArg (ps ! i), IdxArg i] @ map ExtraArg args)
           else if invocable_ptr func
           then Inr ([PtrArg (ps ! i)] @ map ExtraArg args)
           else Inl CompileError))"
  by (auto simp: IterCallback_def)

theorem IterCallback_shapes_witness:
  "IterCallback \<lparr>invocable_ptr_idx_seq = True, invocable_ptr_idx = True, invocable_ptr = True\<rparr>
       (Objects 100 4) 2 [''x''] =
     Inr [PtrArg 102, IdxArg 2, PtrArg 100, ExtraArg ''x'']
   \<and> (1::nat) < length [2000, 3000 :: nat]
   \<and> IterCallback \<lparr>invocable_ptr_idx_seq = False, invocable_ptr_idx = True, invocable_ptr = True\<rparr>
       (Pointers 1000 [2000, 3000]) 1 [''x''] =
     Inr [PtrArg 3000, IdxArg 1, ExtraArg ''x'']"
  using IterCallback_shapes
    [where func = "\<lparr>invocable_ptr_idx_seq = True, invocable_ptr_idx = True,
        invocable_ptr = True\<rparr>" and d = 100 and n = 4 and i = 2 and args = "[''x'']"]
    IterCallback_shapes
    [where func = "\<lparr>invocable_ptr_idx_seq = False, invocable_ptr_idx = True,
        invocable_ptr = True\<rparr>" and i = 1 and args = "[''x'']" and e = 1000
        and ps = "[2000, 3000]"]
  by simp

text \<open>
  Claim C4 as stated fails for a sequence of pointers: with the array at address 1000
  holding the pointers 2000 and 3000, the third argument of the widest shape at index 1
  is 2000, not the base pointer 1000.
\<close>

theorem IterCallback_seq_arg_counterexample:
  "IterCallback \<lparr>invocable_ptr_idx_seq = True, invocable_ptr_idx = True, invocable_ptr = True\<rparr>
       (Pointers 1000 [2000, 3000]) 1 ([] :: unit list) =
     Inr [PtrArg 3000, IdxArg 1, PtrArg 2000]
   \<and> base_ptr (Pointers 1000 [2000, 3000]) = 1000"
  by (simp add: IterCallback_def)

section \<open>The sections of \<^verbatim>\<open>IterateWeighted\<close>: claim C1\<close>

declare scan.simps [simp del]

lemma scan_done:
  "\<not> i < elementCount data \<Longrightarrow> scan ar weightFunc data targetWeight i st = Inr st"
  by (subst scan.simps) simp

lemma scan_keep:
  assumes "i < elementCount data" and "elem_ptr data i = Inr p"
    and "i < elementCount data - 1"
    and "w_le ar (w_add ar (accumWeight st) (weightFunc p)) targetWeight"
  shows "scan ar weightFunc data targetWeight i st =
     scan ar weightFunc data targetWeight (i + 1)
       (st\<lparr>weightCalls := weightCalls st + 1,
           accumWeight := w_add ar (accumWeight st) (weightFunc p)\<rparr>)"
  using assms by (subst scan.simps) (simp add: Let_def)

lemma scan_close:
  assumes "i < elementCount data" and "elem_ptr data i = Inr p"
    and "\<not> (i < elementCount data - 1
            \<and> w_le ar (w_add ar (accumWeight st) (weightFunc p)) targetWeight)"
  shows "scan ar weightFunc data targetWeight i st =
     (if sectionIndex st < length (sections st)
      then scan ar weightFunc data targetWeight (i + 1)
         (st\<lparr>weightCalls := weightCalls st + 1,
             sections := (sections st)[sectionIndex st := \<lparr>Start = newStart st, End = i\<rparr>],
             accumWeight := w_zero ar, newStart := i + 1,
             sectionIndex := sectionIndex st + 1\<rparr>)
      else Inl OutOfBounds)"
  using assms by (subst scan.simps) (auto simp: Let_def)

lemma scan_read_error:
  assumes "i < elementCount data" and "elem_ptr data i = Inl e"
  shows "scan ar weightFunc data targetWeight i st = Inl e"
  using assms by (subst scan.simps) simp

text \<open>
  Two facts about the scan that hold whatever the weights and the arithmetic are: the
  vector of sections keeps its length, and no section ends beyond the last index.
\<close>

lemma scan_sections:
  assumes "scan ar weightFunc data targetWeight i st = Inr st'"
    and "\<forall>s \<in> set (sections st). End s \<le> elementCount data - 1"
  shows "length (sections st') = length (sections st)
     \<and> (\<forall>s \<in> set (sections st'). End s \<le> elementCount data - 1)"
  using assms
proof (induction k \<equiv> "elementCount data - i" arbitrary: i st)
  case 0
  then show ?case by (simp add: scan_done)
next
  case (Suc k)
  then have i: "i < elementCount data" and k: "k = elementCount data - (i + 1)"
    by simp_all
  show ?case
  proof (cases "elem_ptr data i")
    case (Inl e)
    with Suc.prems i show ?thesis by (simp add: scan_read_error)
  next
    case (Inr p)
    show ?thesis
    proof (cases "i < elementCount data - 1
        \<and> w_le ar (w_add ar (accumWeight st) (weightFunc p)) targetWeight")
      case True
      then have "scan ar weightFunc data targetWeight (i + 1)
          (st\<lparr>weightCalls := weightCalls st + 1,
              accumWeight := w_add ar (accumWeight st) (weightFunc p)\<rparr>) = Inr st'"
        using Suc.prems(1) i Inr by (simp add: scan_keep)
      from Suc.hyps(1) [OF k this] Suc.prems(2) show ?thesis by simp
    next
      case False
      then have room: "sectionIndex st < length (sections st)"
        and rest: "scan ar weightFunc data targetWeight (i + 1)
         (st\<lparr>weightCalls := weightCalls st + 1,
             sections := (sections st)[sectionIndex st := \<lparr>Start = newStart st, End = i\<rparr>],
             accumWeight := w_zero ar, newStart := i + 1,
             sectionIndex := sectionIndex st + 1\<rparr>) = Inr st'"
        using Suc.prems(1) i Inr by (simp_all add: scan_close split: if_splits)
      have "\<forall>s \<in> set ((sections st)[sectionIndex st := \<lparr>Start = newStart st, End = i\<rparr>]).
          End s \<le> elementCount data - 1"
        using Suc.prems(2) i
          set_update_subset_insert [of "sections st" "sectionIndex st"
            "\<lparr>Start = newStart st, End = i\<rparr>"]
        by auto
      with Suc.hyps(1) [OF k rest] show ?thesis by simp
    qed
  qed
qed

text \<open>The plan, taken apart.\<close>

lemma IterateWeighted_plan_Inr:
  assumes "IterateWeighted_plan ar DefaultThreadCount cores weightFunc poolSize data = Inr p"
  shows "threadCount p = effectiveWorkers DefaultThreadCount cores poolSize (elementCount data)
     \<and> length (ranges p) = threadCount p
     \<and> jobs p = map (\<lambda>s. ThreadJob_new iterSection [Start s, End s]) (ranges p)
     \<and> (\<forall>s \<in> set (ranges p). End s \<le> elementCount data - 1)"
proof -
  obtain t c where
    t: "total_weight ar weightFunc data [0 ..< elementCount data] (w_zero ar, 0) = Inr (t, c)"
    using assms
    by (cases "total_weight ar weightFunc data [0 ..< elementCount data] (w_zero ar, 0)")
      (auto simp: IterateWeighted_plan_def)
  define n where "n = effectiveWorkers DefaultThreadCount cores poolSize (elementCount data)"
  define st0 where "st0 = \<lparr>accumWeight = w_zero ar, sectionIndex = 0, newStart = 0,
                    sections = replicate n \<lparr>Start = 0, End = 0\<rparr>,
                    weightCalls = c\<rparr>"
  obtain st where st: "scan ar weightFunc data (w_div ar t n) 0 st0 = Inr st"
    using assms t by (cases "scan ar weightFunc data (w_div ar t n) 0 st0")
      (simp_all add: IterateWeighted_plan_def Let_def n_def st0_def)
  have p: "p = \<lparr>threadCount = n, ranges = sections st,
                jobs = map (\<lambda>s. ThreadJob_new iterSection [Start s, End s]) (sections st),
                weightCallCount = weightCalls st\<rparr>"
    using assms t st by (simp add: IterateWeighted_plan_def Let_def n_def st0_def)
  have "\<forall>s \<in> set (sections st0). End s \<le> elementCount data - 1"
    by (simp add: st0_def)
  from scan_sections [OF st this] show ?thesis
    by (simp add: p st0_def n_def)
qed

text \<open>
  Claim C1 at its failing inputs.  The scan stores the index at which a section closes
  as \<^verbatim>\<open>End\<close> and starts the next section one after it, while the job of a section runs
  \<^verbatim>\<open>for (size_t i = start; i < end; i++)\<close>: the closing index of every section is never
  visited.  One element of weight 1 and one worker give the single section (0, 0) and no
  visited index; three elements of weight 1 and three workers give the sections (0, 1),
  (2, 2), (0, 0) and the visited indices [0]; ten elements of weights 1 to 10 and three
  workers give (0, 5), (6, 8), (9, 9) and leave out 5, 8 and 9.
\<close>

theorem IterateWeighted_skips_closing_index:
  "map_sum id (\<lambda>p. (ranges p, visited p))
     (IterateWeighted_plan exact 0 8 (\<lambda>p. 1) 1 (Objects 100 1)) =
     Inr ([\<lparr>Start = 0, End = 0\<rparr>], [])
   \<and> map_sum id (\<lambda>p. (ranges p, visited p))
     (IterateWeighted_plan exact 0 8 (\<lambda>p. 1) 3 (Objects 100 3)) =
     Inr ([\<lparr>Start = 0, End = 1\<rparr>, \<lparr>Start = 2, End = 2\<rparr>, \<lparr>Start = 0, End = 0\<rparr>], [0])
   \<and> map_sum id (\<lambda>p. (ranges p, visited p))
     (IterateWeighted_plan exact 0 8 (\<lambda>p. of_nat (p - 100) + 1) 3 (Objects 100 10)) =
     Inr ([\<lparr>Start = 0, End = 5\<rparr>, \<lparr>Start = 6, End = 8\<rparr>, \<lparr>Start = 9, End = 9\<rparr>],
          [0, 1, 2, 3, 4, 6, 7])"
  by code_simp

text \<open>
  Whatever the weights and the arithmetic are, no job of \<^verbatim>\<open>IterateWeighted\<close> reaches
  the dispatcher with the last index of the sequence, nor with any index beyond it.
\<close>

lemma visited_below_last:
  assumes "IterateWeighted_plan ar DefaultThreadCount cores weightFunc poolSize data = Inr p"
  shows "\<forall>i \<in> set (visited p). i + 1 < elementCount data"
proof -
  note plan = IterateWeighted_plan_Inr [OF assms]
  have "i + 1 < elementCount data"
    if "s \<in> set (ranges p)" and "i \<in> set [Start s ..< End s]" for s i
  proof -
    have "End s \<le> elementCount data - 1"
      using plan that(1) by blast
    then show ?thesis
      using that(2) by auto
  qed
  then show ?thesis
    using plan by (auto simp: visited_def ThreadJob_new_def callback_indices_def)
qed

lemma last_index_never_visited:
  assumes "IterateWeighted_plan ar DefaultThreadCount cores weightFunc poolSize data = Inr p"
    and "0 < elementCount data"
  shows "elementCount data - 1 \<notin> set (visited p)"
  using visited_below_last [OF assms(1)] assms(2) by fastforce

section \<open>The queue: claim C6\<close>

lemma erase_last: "xs \<noteq> [] \<Longrightarrow> erase (length xs - Suc 0) xs = butlast xs"
  by (simp add: erase_def butlast_conv_take)

lemma nth_last: "xs \<noteq> [] \<Longrightarrow> xs ! (length xs - Suc 0) = last xs"
  by (simp add: last_conv_nth)

lemma claim_nonempty:
  "PendingJobs s \<noteq> [] \<Longrightarrow>
     claim s = (Some (last (PendingJobs s)),
                s\<lparr>PendingJobs := butlast (PendingJobs s),
                  ActiveJobCount := ActiveJobCount s + 1\<rparr>)"
  by (simp add: claim_def erase_last nth_last)

lemma claim_empty: "PendingJobs s = [] \<Longrightarrow> claim s = (None, s)"
  by (simp add: claim_def)

lemma Execute_eq:
  "Execute job s =
     s\<lparr>executed := executed s @ [job], deleted := deleted s @ filter bDeleteOnFinish [job]\<rparr>"
  by (simp add: Execute_def Let_def)

lemma TakeNewJob_nonempty:
  "PendingJobs s \<noteq> [] \<Longrightarrow>
     TakeNewJob s =
       (True, Execute (last (PendingJobs s)) (s\<lparr>PendingJobs := butlast (PendingJobs s)\<rparr>))"
  by (simp add: TakeNewJob_def claim_nonempty Execute_eq Let_def)

text \<open>
  Claim C6: the dequeue of \<^verbatim>\<open>TakeNewJob\<close> removes and returns the last element of
  the pending list, and \<^verbatim>\<open>TakeNewJob\<close> run by a single consumer executes it; so after
  jobs \<open>a\<close> and then \<open>b\<close> are enqueued, the first \<^verbatim>\<open>TakeNewJob\<close> executes \<open>b\<close>
  and the second executes \<open>a\<close>.
\<close>

theorem TakeNewJob_LIFO:
  "(PendingJobs s \<noteq> [] \<longrightarrow>
      claim s = (Some (last (PendingJobs s)),
                 s\<lparr>PendingJobs := butlast (PendingJobs s),
                   ActiveJobCount := ActiveJobCount s + 1\<rparr>)
      \<and> TakeNewJob s =
          (True, Execute (last (PendingJobs s)) (s\<lparr>PendingJobs := butlast (PendingJobs s)\<rparr>)))
   \<and> (let s1 = snd (TakeNewJob (AddJobToPool b (AddJobToPool a s)));
           s2 = snd (TakeNewJob s1)
       in executed s1 = executed s @ [b] \<and> PendingJobs s1 = PendingJobs s @ [a]
          \<and> executed s2 = executed s @ [b, a] \<and> PendingJobs s2 = PendingJobs s)"
  by (simp add: claim_nonempty TakeNewJob_nonempty AddJobToPool_def Let_def butlast_append
      Execute_eq)

theorem TakeNewJob_LIFO_witness:
  "PendingJobs (AddFunctionToPool (UserFunction 2) []
       (AddFunctionToPool (UserFunction 1) [] (KThreadPool 0 8 1))) \<noteq> []
   \<and> fst (claim (AddFunctionToPool (UserFunction 2) []
       (AddFunctionToPool (UserFunction 1) [] (KThreadPool 0 8 1)))) =
     Some \<lparr>Function = UserFunction 2, Args = [], bDeleteOnFinish = True\<rparr>
   \<and> executed (snd (TakeNewJob (snd (TakeNewJob (AddFunctionToPool (UserFunction 2) []
       (AddFunctionToPool (UserFunction 1) [] (KThreadPool 0 8 1))))))) =
     [\<lparr>Function = UserFunction 2, Args = [], bDeleteOnFinish = True\<rparr>,
      \<lparr>Function = UserFunction 1, Args = [], bDeleteOnFinish = True\<rparr>]"
  using TakeNewJob_LIFO
    [where s = "AddFunctionToPool (UserFunction 2) []
           (AddFunctionToPool (UserFunction 1) [] (KThreadPool 0 8 1))"]
    TakeNewJob_LIFO
    [where s = "KThreadPool 0 8 1" and a = "ThreadJob_new (UserFunction 1) []"
       and b = "ThreadJob_new (UserFunction 2) []"]
  by (simp add: AddFunctionToPool_def AddJobToPool_def KThreadPool_def ThreadJob_new_def
      Let_def Execute_eq)

section \<open>Steps and runs\<close>

lemma run_append:
  "run (as @ bs) s = (case run as s of None \<Rightarrow> None | Some s' \<Rightarrow> run bs s')"
  by (induction as arbitrary: s) (auto split: option.splits)

lemma worker_step_cases:
  assumes "worker_step i s = Some s'"
  shows "i < length (Threads s) \<and>
    ((Threads s ! i = Polling \<and> PendingJobs s \<noteq> [] \<and>
        s' = s\<lparr>PendingJobs := butlast (PendingJobs s),
               ActiveJobCount := ActiveJobCount s + 1,
               Threads := (Threads s)[i := Executing (last (PendingJobs s))]\<rparr>)
     \<or> (Threads s ! i = Polling \<and> PendingJobs s = [] \<and>
        s' = s\<lparr>Threads := (Threads s)[i := Checking]\<rparr>)
     \<or> (\<exists>job. Threads s ! i = Executing job \<and>
        s' = s\<lparr>executed := executed s @ [job],
               deleted := deleted s @ filter bDeleteOnFinish [job],
               Threads := (Threads s)[i := Finishing]\<rparr>)
     \<or> (Threads s ! i = Finishing \<and>
        s' = s\<lparr>ActiveJobCount := ActiveJobCount s - 1, Threads := (Threads s)[i := Polling]\<rparr>)
     \<or> (Threads s ! i = Checking \<and> \<not> bDestroyingPool s \<and>
        s' = s\<lparr>Threads := (Threads s)[i := Polling]\<rparr>)
     \<or> (Threads s ! i = Checking \<and> bDestroyingPool s \<and>
        s' = s\<lparr>Threads := (Threads s)[i := Exited]\<rparr>))"
proof -
  have i: "i < length (Threads s)"
    using assms by (simp add: worker_step_def split: if_splits)
  show ?thesis
  proof (cases "Threads s ! i")
    case Polling
    then show ?thesis
      using assms i
      by (cases "PendingJobs s = []") (auto simp: worker_step_def claim_empty claim_nonempty)
  next
    case (Executing job)
    then show ?thesis using assms i by (auto simp: worker_step_def Execute_eq)
  next
    case Finishing
    then show ?thesis using assms i by (auto simp: worker_step_def)
  next
    case Checking
    then show ?thesis using assms i by (auto simp: worker_step_def split: if_splits)
  next
    case Exited
    then show ?thesis using assms i by (simp add: worker_step_def)
  qed
qed

lemma owner_step_cases:
  assumes "owner_step s = Some s'"
  shows "(\<exists>js. owner s = Bulk js \<and>
            s' = s\<lparr>PendingJobs := PendingJobs s @ js, owner := Submitting []\<rparr>)
     \<or> (\<exists>job js. owner s = Submitting (job # js) \<and>
            s' = s\<lparr>PendingJobs := PendingJobs s @ [job], owner := Submitting js\<rparr>)
     \<or> (owner s = Submitting [] \<and> s' = s\<lparr>bDestroyingPool := True, owner := Joining 0\<rparr>)
     \<or> (\<exists>k. owner s = Joining k \<and> k < length (Threads s) \<and> Threads s ! k = Exited \<and>
            s' = s\<lparr>owner := Joining (k + 1)\<rparr>)
     \<or> (\<exists>k. owner s = Joining k \<and> \<not> k < length (Threads s) \<and> s' = s\<lparr>owner := Destroyed\<rparr>)"
  using assms
  by (auto simp: owner_step_def AddJobToPool_def split: owner_pc.splits list.splits if_splits)

lemma waiter_step_cases:
  assumes "waiter_step s = Some s'"
  shows "(waiter s = NotWaiting \<and> s' = s\<lparr>waiter := ReadPending\<rparr>)
     \<or> (waiter s = ReadPending \<and> PendingJobs s \<noteq> [] \<and> s' = s)
     \<or> (waiter s = ReadPending \<and> PendingJobs s = [] \<and> s' = s\<lparr>waiter := ReadActive\<rparr>)
     \<or> (waiter s = ReadActive \<and> 0 < ActiveJobCount s \<and> s' = s\<lparr>waiter := ReadPending\<rparr>)
     \<or> (waiter s = ReadActive \<and> ActiveJobCount s = 0 \<and> s' = s\<lparr>waiter := Returned\<rparr>)"
  using assms
  by (auto simp: waiter_step_def GetPendingJobCount_def split: waiter_pc.splits if_splits)

lemma producer_step:
  "step (Producer func args) s = Some s' \<Longrightarrow>
     s' = s\<lparr>PendingJobs := PendingJobs s @ [ThreadJob_new func args]\<rparr>"
  by (auto simp: AddFunctionToPool_def AddJobToPool_def split: if_splits)

text \<open>
  Three steps of a worker that finds a job are \<^verbatim>\<open>TakeNewJob\<close> as the single consumer
  runs it.
\<close>

lemma worker_steps_TakeNewJob:
  assumes "i < length (Threads s)" and "Threads s ! i = Polling" and "PendingJobs s \<noteq> []"
  shows "run [Worker i, Worker i, Worker i] s = Some (snd (TakeNewJob s))"
  using assms
  by (simp add: worker_step_def claim_nonempty TakeNewJob_nonempty Execute_eq
      list_update_same_conv)

section \<open>\<^verbatim>\<open>Iterate\<close>: claim C2\<close>

text \<open>
  Claim C2 at its failing input: \<^verbatim>\<open>Iterate\<close> over one element with one worker.  The
  worker calls \<^verbatim>\<open>TakeNewJob\<close> while the queue is still empty; the owner pushes the job
  and runs the destructor, which sets the flag; the worker reads
  \<^verbatim>\<open>IsPendingDestroy\<close>, finds it set and returns without a further look at the queue;
  the join succeeds and \<^verbatim>\<open>Iterate\<close> returns.  No callback has run and the job is
  still queued.
\<close>

theorem Iterate_loses_jobs:
  "map_option (\<lambda>s. (owner s, Threads s, invoked s, PendingJobs s))
     (run [Worker 0, Owner, Owner, Worker 0, Owner, Owner] (Iterate 0 8 1 (Objects 100 1))) =
   Some (Destroyed, [Exited], [],
         [\<lparr>Function = iterCallback, Args = [0], bDeleteOnFinish = False\<rparr>])"
  by (simp add: Iterate_def KThreadPool_def KThreadPool_count_def clampPoolSize_def
      int_to_size_t_def size_t_to_int_def worker_step_def owner_step_def claim_def
      invoked_def ThreadJob_new_flag_def)

section \<open>The destroy flag and the end of a worker: claim C8\<close>

lemma step_flag_mono:
  assumes "step a s = Some s'" and "bDestroyingPool s"
  shows "bDestroyingPool s'"
proof (cases a)
  case (Worker i)
  then show ?thesis using assms worker_step_cases [of i s s'] by auto
next
  case Owner
  then show ?thesis using assms owner_step_cases [of s s'] by auto
next
  case Waiter
  then show ?thesis using assms waiter_step_cases [of s s'] by auto
next
  case (Producer func args)
  then show ?thesis using assms producer_step [of func args s s'] by auto
qed

lemma run_flag_mono:
  "run as s = Some s' \<Longrightarrow> bDestroyingPool s \<Longrightarrow> bDestroyingPool s'"
  by (induction as arbitrary: s) (auto split: option.splits dest: step_flag_mono)

lemma step_Threads_length:
  assumes "step a s = Some s'"
  shows "length (Threads s') = length (Threads s)"
proof (cases a)
  case (Worker i)
  then show ?thesis using assms worker_step_cases [of i s s'] by auto
next
  case Owner
  then show ?thesis using assms owner_step_cases [of s s'] by auto
next
  case Waiter
  then show ?thesis using assms waiter_step_cases [of s s'] by auto
next
  case (Producer func args)
  then show ?thesis using assms producer_step [of func args s s'] by auto
qed

lemma step_exit:
  assumes "step a s = Some s'" and "i < length (Threads s)"
    and "Threads s ! i \<noteq> Exited" and "Threads s' ! i = Exited"
  shows "a = Worker i \<and> Threads s ! i = Checking \<and> bDestroyingPool s"
proof (cases a)
  case (Worker k)
  then show ?thesis
    using assms worker_step_cases [of k s s']
    by (cases "k = i") auto
next
  case Owner
  then show ?thesis using assms owner_step_cases [of s s'] by auto
next
  case Waiter
  then show ?thesis using assms waiter_step_cases [of s s'] by auto
next
  case (Producer func args)
  then show ?thesis using assms producer_step [of func args s s'] by auto
qed

lemma step_checking:
  assumes "step a s = Some s'" and "i < length (Threads s)"
    and "Threads s ! i \<noteq> Checking" and "Threads s' ! i = Checking"
  shows "a = Worker i \<and> Threads s ! i = Polling \<and> PendingJobs s = []"
proof (cases a)
  case (Worker k)
  then show ?thesis
    using assms worker_step_cases [of k s s']
    by (cases "k = i") auto
next
  case Owner
  then show ?thesis using assms owner_step_cases [of s s'] by auto
next
  case Waiter
  then show ?thesis using assms waiter_step_cases [of s s'] by auto
next
  case (Producer func args)
  then show ?thesis using assms producer_step [of func args s s'] by auto
qed

lemma step_dtor_inv:
  assumes "step a s = Some s'" and "dtor_inv s"
  shows "dtor_inv s'"
proof (cases a)
  case (Worker k)
  then show ?thesis
    using assms worker_step_cases [of k s s']
    by (auto simp: dtor_inv_def nth_list_update split: owner_pc.splits)
next
  case Owner
  then show ?thesis
    using assms owner_step_cases [of s s']
    by (auto simp: dtor_inv_def less_Suc_eq split: owner_pc.splits)
next
  case Waiter
  then show ?thesis
    using assms waiter_step_cases [of s s']
    by (auto simp: dtor_inv_def split: owner_pc.splits)
next
  case (Producer func args)
  then show ?thesis
    using assms producer_step [of func args s s']
    by (auto simp: dtor_inv_def split: owner_pc.splits)
qed

lemma run_dtor_inv:
  "run as s = Some s' \<Longrightarrow> dtor_inv s \<Longrightarrow> dtor_inv s'"
  by (induction as arbitrary: s) (auto split: option.splits dest: step_dtor_inv)

lemma before_destructor_dtor_inv: "before_destructor (owner s) \<Longrightarrow> dtor_inv s"
  by (cases "owner s") (simp_all add: dtor_inv_def)

text \<open>
  Claim C8.  (1) Along every run the destroy flag, once set, stays set.  (2) A step after
  which worker \<open>i\<close> has returned, and before which it had not, is a step of worker
  \<open>i\<close> itself, taken after a \<^verbatim>\<open>TakeNewJob\<close> that found nothing, with the flag set;
  and a worker gets to that place only by its own dequeue attempt on an empty queue.
  (3) In every run that starts before the destructor, the owner joins threads only with
  the flag set, and is past the destructor only when the flag is set and every worker
  thread has returned.
\<close>

theorem destroy_flag_and_worker_exit:
  "(run as s = Some s' \<and> bDestroyingPool s \<longrightarrow> bDestroyingPool s')
   \<and> (step a t = Some t' \<and> i < length (Threads t) \<and> Threads t ! i \<noteq> Exited
        \<and> Threads t' ! i = Exited
      \<longrightarrow> a = Worker i \<and> Threads t ! i = Checking \<and> bDestroyingPool t)
   \<and> (step b u = Some u' \<and> j < length (Threads u) \<and> Threads u ! j \<noteq> Checking
        \<and> Threads u' ! j = Checking
      \<longrightarrow> b = Worker j \<and> Threads u ! j = Polling \<and> PendingJobs u = [])
   \<and> (before_destructor (owner v) \<and> run cs v = Some v'
      \<longrightarrow> (owner v' = Joining k \<longrightarrow> bDestroyingPool v')
          \<and> (owner v' = Destroyed
               \<longrightarrow> bDestroyingPool v' \<and> (\<forall>w \<in> set (Threads v'). w = Exited)))"
proof (intro conjI impI)
  show "bDestroyingPool s'" if "run as s = Some s' \<and> bDestroyingPool s"
    using that run_flag_mono by blast
  show "a = Worker i" "Threads t ! i = Checking" "bDestroyingPool t"
    if "step a t = Some t' \<and> i < length (Threads t) \<and> Threads t ! i \<noteq> Exited
        \<and> Threads t' ! i = Exited"
    using that step_exit [of a t t' i] by blast+
  show "b = Worker j" "Threads u ! j = Polling" "PendingJobs u = []"
    if "step b u = Some u' \<and> j < length (Threads u) \<and> Threads u ! j \<noteq> Checking
        \<and> Threads u' ! j = Checking"
    using that step_checking [of b u u' j] by blast+
next
  assume h: "before_destructor (owner v) \<and> run cs v = Some v'"
  then have inv: "dtor_inv v'"
    using run_dtor_inv before_destructor_dtor_inv by blast
  show "bDestroyingPool v'" if "owner v' = Joining k"
    using inv that by (simp add: dtor_inv_def)
  show "bDestroyingPool v'" if "owner v' = Destroyed"
    using inv that by (simp add: dtor_inv_def)
  show "\<forall>w \<in> set (Threads v'). w = Exited" if "owner v' = Destroyed"
    using inv that by (auto simp: dtor_inv_def in_set_conv_nth)
qed

theorem destroy_flag_and_worker_exit_witness:
  "run [Worker 0, Owner, Owner]
      ((KThreadPool 0 8 1)\<lparr>bDestroyingPool := True, Threads := [Checking], owner := Joining 0\<rparr>)
     = Some ((KThreadPool 0 8 1)\<lparr>bDestroyingPool := True, Threads := [Exited],
              owner := Destroyed\<rparr>)
   \<and> step (Worker 0)
      ((KThreadPool 0 8 1)\<lparr>bDestroyingPool := True, Threads := [Checking], owner := Joining 0\<rparr>)
     = Some ((KThreadPool 0 8 1)\<lparr>bDestroyingPool := True, Threads := [Exited],
              owner := Joining 0\<rparr>)
   \<and> step (Worker 0) (KThreadPool 0 8 1) = Some ((KThreadPool 0 8 1)\<lparr>Threads := [Checking]\<rparr>)
   \<and> Threads (KThreadPool 0 8 1) = [Polling]
   \<and> PendingJobs (KThreadPool 0 8 1) = []
   \<and> before_destructor (owner (KThreadPool 0 8 1))
   \<and> run [Worker 0, Owner, Worker 0, Owner, Owner] (KThreadPool 0 8 1)
     = Some ((KThreadPool 0 8 1)\<lparr>bDestroyingPool := True, Threads := [Exited],
              owner := Destroyed\<rparr>)
   \<and> run [Worker 0, Owner, Worker 0, Owner] (KThreadPool 0 8 1)
     = Some ((KThreadPool 0 8 1)\<lparr>bDestroyingPool := True, Threads := [Exited],
              owner := Joining 1\<rparr>)
   \<and> bDestroyingPool ((KThreadPool 0 8 1)\<lparr>bDestroyingPool := True, Threads := [Exited],
              owner := Destroyed\<rparr>)
   \<and> bDestroyingPool ((KThreadPool 0 8 1)\<lparr>bDestroyingPool := True, Threads := [Exited],
              owner := Joining 1\<rparr>)
   \<and> list_all (\<lambda>w. w = Exited)
        (Threads ((KThreadPool 0 8 1)\<lparr>bDestroyingPool := True, Threads := [Exited],
              owner := Destroyed\<rparr>))"
proof -
  let ?P0 = "KThreadPool 0 8 1"
  let ?P1 = "?P0\<lparr>Threads := [Checking]\<rparr>"
  let ?P2 = "?P0\<lparr>bDestroyingPool := True, Threads := [Checking], owner := Joining 0\<rparr>"
  let ?P3 = "?P0\<lparr>bDestroyingPool := True, Threads := [Exited], owner := Joining 0\<rparr>"
  let ?P4 = "?P0\<lparr>bDestroyingPool := True, Threads := [Exited], owner := Joining 1\<rparr>"
  let ?P5 = "?P0\<lparr>bDestroyingPool := True, Threads := [Exited], owner := Destroyed\<rparr>"
  have r1: "run [Worker 0, Owner, Owner] ?P2 = Some ?P5"
    by (simp add: KThreadPool_def KThreadPool_count_def worker_step_def owner_step_def)
  have r2: "step (Worker 0) ?P2 = Some ?P3"
    by (simp add: KThreadPool_def KThreadPool_count_def worker_step_def)
  have r3: "step (Worker 0) ?P0 = Some ?P1"
    by (simp add: KThreadPool_def KThreadPool_count_def worker_step_def claim_def)
  have r4: "run [Worker 0, Owner, Worker 0, Owner, Owner] ?P0 = Some ?P5"
    by (simp add: KThreadPool_def KThreadPool_count_def worker_step_def owner_step_def
        claim_def)
  have r5: "run [Worker 0, Owner, Worker 0, Owner] ?P0 = Some ?P4"
    by (simp add: KThreadPool_def KThreadPool_count_def worker_step_def owner_step_def
        claim_def)
  have t: "Threads ?P0 = [Polling]" "PendingJobs ?P0 = []" "before_destructor (owner ?P0)"
    by (simp_all add: KThreadPool_def KThreadPool_count_def)
  note at_end = destroy_flag_and_worker_exit
    [where as = "[Worker 0, Owner, Owner]" and s = "?P2" and s' = "?P5"
       and a = "Worker 0" and t = "?P2" and t' = "?P3" and i = 0
       and b = "Worker 0" and u = "?P0" and u' = "?P1" and j = 0
       and v = "?P0" and cs = "[Worker 0, Owner, Worker 0, Owner, Owner]" and v' = "?P5"]
  note at_join = destroy_flag_and_worker_exit
    [where v = "?P0" and cs = "[Worker 0, Owner, Worker 0, Owner]" and v' = "?P4" and k = 1]
  have c1: "bDestroyingPool ?P5 \<and> list_all (\<lambda>w. w = Exited) (Threads ?P5)"
    using at_end r1 r2 r3 r4 t by (simp add: list_all_iff)
  have c2: "bDestroyingPool ?P4"
    using at_join r5 t by simp
  show ?thesis
    using r1 r2 r3 r4 r5 t c1 c2 by simp
qed

section \<open>\<^verbatim>\<open>WaitForFinish\<close>: claim C7\<close>

lemma busy_update:
  "i < length ws \<Longrightarrow>
     length (filter busy (ws[i := w])) + (if busy (ws ! i) then 1 else 0) =
     length (filter busy ws) + (if busy w then 1 else 0)"
proof (induction ws arbitrary: i)
  case Nil
  then show ?case by simp
next
  case (Cons x xs)
  then show ?case
  proof (cases i)
    case 0
    then show ?thesis by simp
  next
    case (Suc k)
    then have "k < length xs" using Cons.prems by simp
    from Cons.IH [OF this] show ?thesis using Suc by simp
  qed
qed

lemma step_busy_inv:
  assumes "step a s = Some s'" and "busy_inv s"
  shows "busy_inv s'"
proof (cases a)
  case (Worker k)
  have k: "k < length (Threads s)"
    using Worker assms worker_step_cases [of k s s'] by simp
  note upd = busy_update [OF k]
  show ?thesis
    using Worker assms worker_step_cases [of k s s']
      upd [of "Executing (last (PendingJobs s))"] upd [of Checking] upd [of Finishing]
      upd [of Polling] upd [of Exited]
    by (auto simp: busy_inv_def)
next
  case Owner
  then show ?thesis
    using assms owner_step_cases [of s s'] by (auto simp: busy_inv_def)
next
  case Waiter
  then show ?thesis
    using assms waiter_step_cases [of s s'] by (auto simp: busy_inv_def)
next
  case (Producer func args)
  then show ?thesis
    using assms producer_step [of func args s s'] by (auto simp: busy_inv_def)
qed

text \<open>
  So the counter is positive whenever a worker is about to decrement it, and it never
  exceeds the number of threads: the decrement never wraps.
\<close>

lemma active_count_bounds:
  assumes "busy_inv s"
  shows "ActiveJobCount s \<le> length (Threads s)"
    and "i < length (Threads s) \<Longrightarrow> busy (Threads s ! i) \<Longrightarrow> 0 < ActiveJobCount s"
proof -
  show "ActiveJobCount s \<le> length (Threads s)"
    using assms by (simp add: busy_inv_def)
  show "0 < ActiveJobCount s" if "i < length (Threads s)" and "busy (Threads s ! i)"
  proof -
    have "Threads s ! i \<in> set (filter busy (Threads s))"
      using that by simp
    then have "filter busy (Threads s) \<noteq> []"
      by (metis empty_iff empty_set)
    then show ?thesis
      using assms by (simp add: busy_inv_def)
  qed
qed

lemma run_busy_inv:
  "run as s = Some s' \<Longrightarrow> busy_inv s \<Longrightarrow> busy_inv s'"
  by (induction as arbitrary: s) (auto split: option.splits dest: step_busy_inv)

lemma step_pushes_nothing:
  assumes "step a s = Some s'" and "pushes_nothing (owner s)"
  shows "pushes_nothing (owner s')"
proof (cases a)
  case (Worker k)
  then show ?thesis using assms worker_step_cases [of k s s'] by auto
next
  case Owner
  then show ?thesis using assms owner_step_cases [of s s'] by auto
next
  case Waiter
  then show ?thesis using assms waiter_step_cases [of s s'] by auto
next
  case (Producer func args)
  then show ?thesis using assms producer_step [of func args s s'] by auto
qed

lemma run_pushes_nothing:
  "run as s = Some s' \<Longrightarrow> pushes_nothing (owner s) \<Longrightarrow> pushes_nothing (owner s')"
  by (induction as arbitrary: s) (auto split: option.splits dest: step_pushes_nothing)

lemma step_wait_inv:
  assumes "step a s = Some s'" and "\<not> is_producer a" and "pushes_nothing (owner s)"
    and "wait_inv s"
  shows "wait_inv s'"
proof (cases a)
  case (Worker k)
  then show ?thesis
    using assms worker_step_cases [of k s s'] by (auto simp: wait_inv_def)
next
  case Owner
  then show ?thesis
    using assms owner_step_cases [of s s'] by (auto simp: wait_inv_def)
next
  case Waiter
  then show ?thesis
    using assms waiter_step_cases [of s s'] by (auto simp: wait_inv_def)
next
  case (Producer func args)
  then show ?thesis using assms by simp
qed

lemma run_wait_inv:
  "run as s = Some s' \<Longrightarrow> \<forall>a \<in> set as. \<not> is_producer a \<Longrightarrow> pushes_nothing (owner s) \<Longrightarrow>
     wait_inv s \<Longrightarrow> wait_inv s'"
proof (induction as arbitrary: s)
  case Nil
  then show ?case by simp
next
  case (Cons a as)
  then obtain t where t: "step a s = Some t" "run as t = Some s'"
    by (auto split: option.splits)
  have "wait_inv t" "pushes_nothing (owner t)"
    using t(1) Cons.prems step_wait_inv step_pushes_nothing by auto
  then show ?case
    using Cons.IH [OF t(2)] Cons.prems(2) by simp
qed

lemma KThreadPool_invs:
  "busy_inv (KThreadPool d cores count')" "pushes_nothing (owner (KThreadPool d cores count'))"
  by (simp_all add: KThreadPool_def busy_inv_def)

text \<open>
  Claim C7, as amended: in a pool built by the constructor, after any history, if no job
  is enqueued from the moment \<^verbatim>\<open>WaitForFinish\<close> is about to read the pending count
  until it returns, then at its return the pending count is 0, the active count is 0 and
  no worker holds a job.
\<close>

theorem WaitForFinish_returns_idle:
  assumes "run pre (KThreadPool DefaultThreadCount cores count') = Some s0"
    and "waiter s0 = NotWaiting \<or> waiter s0 = ReadPending"
    and "run post s0 = Some s"
    and "\<forall>a \<in> set post. \<not> is_producer a"
    and "waiter s = Returned"
  shows "GetPendingJobCount s = 0 \<and> ActiveJobCount s = 0 \<and> (\<forall>w \<in> set (Threads s). \<not> busy w)"
proof -
  have s0: "busy_inv s0" "pushes_nothing (owner s0)"
    using assms(1) KThreadPool_invs run_busy_inv run_pushes_nothing by blast+
  have "wait_inv s0"
    using assms(2) by (auto simp: wait_inv_def)
  then have "wait_inv s"
    using run_wait_inv [OF assms(3,4) s0(2)] by simp
  then have idle: "PendingJobs s = []" "ActiveJobCount s = 0"
    using assms(5) by (simp_all add: wait_inv_def)
  have "busy_inv s"
    using run_busy_inv [OF assms(3) s0(1)] .
  then have "filter busy (Threads s) = []"
    using idle(2) by (simp add: busy_inv_def)
  then show ?thesis
    using idle by (simp add: GetPendingJobCount_def filter_empty_conv)
qed

theorem WaitForFinish_returns_idle_witness:
  "run [Producer (UserFunction 1) []] (KThreadPool 0 8 1) =
     Some ((KThreadPool 0 8 1)
       \<lparr>PendingJobs := [\<lparr>Function = UserFunction 1, Args = [], bDeleteOnFinish = True\<rparr>]\<rparr>)
   \<and> run [Waiter, Worker 0, Waiter, Waiter, Worker 0, Worker 0, Waiter, Waiter]
       ((KThreadPool 0 8 1)
       \<lparr>PendingJobs := [\<lparr>Function = UserFunction 1, Args = [], bDeleteOnFinish = True\<rparr>]\<rparr>) =
     Some ((KThreadPool 0 8 1)
       \<lparr>waiter := Returned,
        executed := [\<lparr>Function = UserFunction 1, Args = [], bDeleteOnFinish = True\<rparr>],
        deleted := [\<lparr>Function = UserFunction 1, Args = [], bDeleteOnFinish = True\<rparr>]\<rparr>)
   \<and> list_all (\<lambda>a. \<not> is_producer a)
       [Waiter, Worker 0, Waiter, Waiter, Worker 0, Worker 0, Waiter, Waiter]
   \<and> GetPendingJobCount ((KThreadPool 0 8 1)
       \<lparr>waiter := Returned,
        executed := [\<lparr>Function = UserFunction 1, Args = [], bDeleteOnFinish = True\<rparr>],
        deleted := [\<lparr>Function = UserFunction 1, Args = [], bDeleteOnFinish = True\<rparr>]\<rparr>) = 0
   \<and> ActiveJobCount ((KThreadPool 0 8 1)
       \<lparr>waiter := Returned,
        executed := [\<lparr>Function = UserFunction 1, Args = [], bDeleteOnFinish = True\<rparr>],
        deleted := [\<lparr>Function = UserFunction 1, Args = [], bDeleteOnFinish = True\<rparr>]\<rparr>) = 0
   \<and> list_all (\<lambda>w. \<not> busy w) (Threads ((KThreadPool 0 8 1)
       \<lparr>waiter := Returned,
        executed := [\<lparr>Function = UserFunction 1, Args = [], bDeleteOnFinish = True\<rparr>],
        deleted := [\<lparr>Function = UserFunction 1, Args = [], bDeleteOnFinish = True\<rparr>]\<rparr>))"
proof -
  let ?job = "\<lparr>Function = UserFunction 1, Args = [], bDeleteOnFinish = True\<rparr>"
  let ?before = "(KThreadPool 0 8 1)\<lparr>PendingJobs := [?job]\<rparr>"
  let ?after = "(KThreadPool 0 8 1)\<lparr>waiter := Returned, executed := [?job],
      deleted := [?job]\<rparr>"
  let ?post = "[Waiter, Worker 0, Waiter, Waiter, Worker 0, Worker 0, Waiter, Waiter]"
  have pre: "run [Producer (UserFunction 1) []] (KThreadPool 0 8 1) = Some ?before"
    by code_simp
  have w: "waiter ?before = NotWaiting \<or> waiter ?before = ReadPending"
    by (simp add: KThreadPool_def)
  have post: "run ?post ?before = Some ?after"
    by code_simp
  have np: "\<forall>a \<in> set ?post. \<not> is_producer a"
    by simp
  have r: "waiter ?after = Returned"
    by simp
  from WaitForFinish_returns_idle [OF pre w post np r]
  have "GetPendingJobCount ?after = 0 \<and> ActiveJobCount ?after = 0
      \<and> list_all (\<lambda>w. \<not> busy w) (Threads ?after)"
    by (simp add: list_all_iff)
  then show ?thesis
    using pre post by simp
qed

text \<open>
  Claim C7 as stated fails when a job is enqueued between the two reads of
  \<^verbatim>\<open>WaitForFinish\<close>: it reads an empty queue while the only worker still executes job
  1, job 2 is then enqueued, the worker finishes job 1 and decrements the counter, and
  \<^verbatim>\<open>WaitForFinish\<close> reads the counter 0 and returns while job 2 is queued.
\<close>

theorem WaitForFinish_counterexample:
  "map_option (\<lambda>s. (waiter s, PendingJobs s, ActiveJobCount s))
     (run [Producer (UserFunction 1) [], Worker 0, Waiter, Waiter,
           Producer (UserFunction 2) [], Worker 0, Worker 0, Waiter] (KThreadPool 0 8 1)) =
   Some (Returned, [\<lparr>Function = UserFunction 2, Args = [], bDeleteOnFinish = True\<rparr>], 0)"
  by code_simp

section \<open>The jobs of a pool that nobody else feeds\<close>

lemma set_worker_jobs_update:
  "set (concat (map worker_jobs (ws[i := w]))) \<subseteq>
     set (worker_jobs w) \<union> set (concat (map worker_jobs ws))"
  using set_update_subset_insert [of ws i w] by auto

lemma worker_job_in_set:
  assumes "i < length ws" and "ws ! i = Executing job"
  shows "job \<in> set (concat (map worker_jobs ws))"
proof -
  have "Executing job \<in> set ws"
    using assms nth_mem [of i ws] by simp
  then have "set (worker_jobs (Executing job)) \<subseteq> set (concat (map worker_jobs ws))"
    by (simp only: set_concat set_map) blast
  then show ?thesis by simp
qed

lemma step_all_jobs:
  assumes "step a s = Some s'" and "\<not> is_producer a"
  shows "set (all_jobs s') \<subseteq> set (all_jobs s)"
proof (cases a)
  case (Worker k)
  note sub = set_worker_jobs_update [of "Threads s" k]
  have ws: "worker_step k s = Some s'"
    using Worker assms(1) by simp
  have o1: "set (all_jobs (s\<lparr>Threads := (Threads s)[k := Checking]\<rparr>)) \<subseteq> set (all_jobs s)"
    using sub [of Checking] by (auto simp: all_jobs_def)
  have o2: "set (all_jobs (s\<lparr>Threads := (Threads s)[k := Polling]\<rparr>)) \<subseteq> set (all_jobs s)"
    using sub [of Polling] by (auto simp: all_jobs_def)
  have o3: "set (all_jobs (s\<lparr>Threads := (Threads s)[k := Exited]\<rparr>)) \<subseteq> set (all_jobs s)"
    using sub [of Exited] by (auto simp: all_jobs_def)
  have o4: "set (all_jobs (s\<lparr>ActiveJobCount := ActiveJobCount s - 1,
      Threads := (Threads s)[k := Polling]\<rparr>)) \<subseteq> set (all_jobs s)"
    using sub [of Polling] by (auto simp: all_jobs_def)
  from worker_step_cases [OF ws]
  consider
    (claim) "k < length (Threads s)" "PendingJobs s \<noteq> []"
      "s' = s\<lparr>PendingJobs := butlast (PendingJobs s),
             ActiveJobCount := ActiveJobCount s + 1,
             Threads := (Threads s)[k := Executing (last (PendingJobs s))]\<rparr>"
  | (exec) job where "k < length (Threads s)" "Threads s ! k = Executing job"
      "s' = s\<lparr>executed := executed s @ [job],
             deleted := deleted s @ filter bDeleteOnFinish [job],
             Threads := (Threads s)[k := Finishing]\<rparr>"
  | (other) "set (all_jobs s') \<subseteq> set (all_jobs s)"
    using o1 o2 o3 o4 by (elim conjE disjE exE) blast+
  then show ?thesis
  proof cases
    case claim
    have "last (PendingJobs s) \<in> set (PendingJobs s)"
      using claim(2) by simp
    moreover have "set (butlast (PendingJobs s)) \<subseteq> set (PendingJobs s)"
      by (auto dest: in_set_butlastD)
    ultimately show ?thesis
      using claim(3) sub [of "Executing (last (PendingJobs s))"]
      by (auto simp: all_jobs_def)
  next
    case exec
    have "job \<in> set (concat (map worker_jobs (Threads s)))"
      using exec(1,2) by (rule worker_job_in_set)
    then show ?thesis
      using exec(3) sub [of Finishing] by (auto simp: all_jobs_def)
  next
    case other
    then show ?thesis .
  qed
next
  case Owner
  then show ?thesis
    using assms owner_step_cases [of s s'] by (auto simp: all_jobs_def)
next
  case Waiter
  then show ?thesis
    using assms waiter_step_cases [of s s'] by (auto simp: all_jobs_def)
next
  case (Producer func args)
  then show ?thesis using assms by simp
qed

lemma run_all_jobs:
  "run as s = Some s' \<Longrightarrow> \<forall>a \<in> set as. \<not> is_producer a \<Longrightarrow>
     set (all_jobs s') \<subseteq> set (all_jobs s)"
proof (induction as arbitrary: s)
  case Nil
  then show ?case by simp
next
  case (Cons a as)
  then obtain t where t: "step a s = Some t" "run as t = Some s'"
    by (auto split: option.splits)
  have "set (all_jobs t) \<subseteq> set (all_jobs s)"
    using t(1) Cons.prems(2) by (simp add: step_all_jobs)
  moreover have "set (all_jobs s') \<subseteq> set (all_jobs t)"
    using Cons.IH [OF t(2)] Cons.prems(2) by simp
  ultimately show ?case by blast
qed

lemma executed_subset_all_jobs: "set (executed s) \<subseteq> set (all_jobs s)"
  by (auto simp: all_jobs_def)

lemma invoked_empty:
  "\<forall>job \<in> set (executed s). callback_indices job = [] \<Longrightarrow> invoked s = []"
  by (simp add: invoked_def)


lemma no_worker_jobs_Polling: "concat (map worker_jobs (replicate n Polling)) = []"
  by (induction n) simp_all

lemma pool_record:
  "KThreadPool d cores count' =
     \<lparr>PendingJobs = [], ActiveJobCount = 0, bDestroyingPool = False,
      Threads = replicate (KThreadPool_count d cores count') Polling,
      owner = Submitting [], waiter = NotWaiting, executed = [],
      deleted = []\<rparr>"
  by (simp add: KThreadPool_def)


section \<open>The draining schedule runs to the end\<close>

lemma drain_schedule_no_producer: "\<forall>a \<in> set (drain_schedule n m). \<not> is_producer a"
  by (auto simp: drain_schedule_def)

lemma run_submit:
  "run (replicate (length js) Owner)
     \<lparr>PendingJobs = ps, ActiveJobCount = c, bDestroyingPool = f, Threads = ts,
      owner = Submitting js, waiter = w, executed = ex,
      deleted = dl\<rparr> =
   Some \<lparr>PendingJobs = ps @ js, ActiveJobCount = c, bDestroyingPool = f, Threads = ts,
         owner = Submitting [], waiter = w, executed = ex,
      deleted = dl\<rparr>"
  by (induction js arbitrary: ps) (simp_all add: owner_step_def AddJobToPool_def)

lemma run_take_all:
  assumes "0 < length ts" and "ts ! 0 = Polling"
  shows "run (concat (replicate (length ps) [Worker 0, Worker 0, Worker 0]))
     \<lparr>PendingJobs = ps, ActiveJobCount = c, bDestroyingPool = f, Threads = ts,
      owner = ow, waiter = w, executed = ex,
      deleted = dl\<rparr> =
   Some \<lparr>PendingJobs = [], ActiveJobCount = c, bDestroyingPool = f, Threads = ts,
         owner = ow, waiter = w, executed = ex @ rev ps,
      deleted = dl @ filter bDeleteOnFinish (rev ps)\<rparr>"
proof (induction ps arbitrary: ex dl rule: rev_induct)
  case Nil
  then show ?case by simp
next
  case (snoc job ps)
  let ?three = "[Worker 0, Worker 0, Worker 0]"
  have three: "run ?three
     \<lparr>PendingJobs = ps @ [job], ActiveJobCount = c, bDestroyingPool = f, Threads = ts,
      owner = ow, waiter = w, executed = ex,
      deleted = dl\<rparr> =
   Some \<lparr>PendingJobs = ps, ActiveJobCount = c, bDestroyingPool = f, Threads = ts,
         owner = ow, waiter = w, executed = ex @ [job],
      deleted = dl @ filter bDeleteOnFinish [job]\<rparr>"
    using assms
    by (simp add: worker_step_def claim_nonempty Execute_eq list_update_same_conv)
  have split: "concat (replicate (length (ps @ [job])) ?three) =
      ?three @ concat (replicate (length ps) ?three)"
    by simp
  have "run (concat (replicate (length (ps @ [job])) ?three))
     \<lparr>PendingJobs = ps @ [job], ActiveJobCount = c, bDestroyingPool = f, Threads = ts,
      owner = ow, waiter = w, executed = ex,
      deleted = dl\<rparr> =
    run (concat (replicate (length ps) ?three))
     \<lparr>PendingJobs = ps, ActiveJobCount = c, bDestroyingPool = f, Threads = ts,
      owner = ow, waiter = w, executed = ex @ [job],
      deleted = dl @ filter bDeleteOnFinish [job]\<rparr>"
    by (simp only: split run_append three option.case)
  also have "\<dots> = Some \<lparr>PendingJobs = [], ActiveJobCount = c, bDestroyingPool = f,
      Threads = ts, owner = ow, waiter = w, executed = (ex @ [job]) @ rev ps,
      deleted = (dl @ filter bDeleteOnFinish [job]) @ filter bDeleteOnFinish (rev ps)\<rparr>"
    by (rule snoc)
  finally show ?case by simp
qed

lemma run_exit_all:
  "run (concat (map (\<lambda>i. [Worker i, Worker i]) [length es ..< length es + m]))
     \<lparr>PendingJobs = [], ActiveJobCount = c, bDestroyingPool = True,
      Threads = es @ replicate m Polling, owner = ow, waiter = w, executed = ex,
      deleted = dl\<rparr> =
   Some \<lparr>PendingJobs = [], ActiveJobCount = c, bDestroyingPool = True,
         Threads = es @ replicate m Exited, owner = ow, waiter = w, executed = ex,
      deleted = dl\<rparr>"
proof (induction m arbitrary: es)
  case 0
  then show ?case by simp
next
  case (Suc m)
  let ?two = "[Worker (length es), Worker (length es)]"
  have two: "run ?two
     \<lparr>PendingJobs = [], ActiveJobCount = c, bDestroyingPool = True,
      Threads = es @ replicate (Suc m) Polling, owner = ow, waiter = w, executed = ex,
      deleted = dl\<rparr> =
   Some \<lparr>PendingJobs = [], ActiveJobCount = c, bDestroyingPool = True,
         Threads = (es @ [Exited]) @ replicate m Polling, owner = ow, waiter = w,
         executed = ex,
      deleted = dl\<rparr>"
    by (simp add: worker_step_def claim_empty)
  have split: "concat (map (\<lambda>i. [Worker i, Worker i]) [length es ..< length es + Suc m]) =
      ?two @ concat (map (\<lambda>i. [Worker i, Worker i])
                      [length (es @ [Exited]) ..< length (es @ [Exited]) + m])"
    by (simp add: upt_conv_Cons)
  have "run (concat (map (\<lambda>i. [Worker i, Worker i]) [length es ..< length es + Suc m]))
     \<lparr>PendingJobs = [], ActiveJobCount = c, bDestroyingPool = True,
      Threads = es @ replicate (Suc m) Polling, owner = ow, waiter = w, executed = ex,
      deleted = dl\<rparr> =
    run (concat (map (\<lambda>i. [Worker i, Worker i])
                      [length (es @ [Exited]) ..< length (es @ [Exited]) + m]))
     \<lparr>PendingJobs = [], ActiveJobCount = c, bDestroyingPool = True,
      Threads = (es @ [Exited]) @ replicate m Polling, owner = ow, waiter = w,
      executed = ex,
      deleted = dl\<rparr>"
    by (simp only: split run_append two option.case)
  also have "\<dots> = Some \<lparr>PendingJobs = [], ActiveJobCount = c, bDestroyingPool = True,
      Threads = (es @ [Exited]) @ replicate m Exited, owner = ow, waiter = w,
      executed = ex,
      deleted = dl\<rparr>"
    by (rule Suc)
  finally show ?case by simp
qed

lemma run_join_all:
  assumes "\<forall>i < length ts. ts ! i = Exited" and "k + m = length ts"
  shows "run (replicate (Suc m) Owner)
     \<lparr>PendingJobs = ps, ActiveJobCount = c, bDestroyingPool = f, Threads = ts,
      owner = Joining k, waiter = w, executed = ex,
      deleted = dl\<rparr> =
   Some \<lparr>PendingJobs = ps, ActiveJobCount = c, bDestroyingPool = f, Threads = ts,
         owner = Destroyed, waiter = w, executed = ex,
      deleted = dl\<rparr>"
  using assms
proof (induction m arbitrary: k)
  case 0
  then show ?case by (simp add: owner_step_def)
next
  case (Suc m)
  then have "k < length ts" "ts ! k = Exited" "Suc k + m = length ts"
    by auto
  then show ?case
    using Suc.IH [of "Suc k"] Suc.prems(1) by (simp add: owner_step_def)
qed

lemma run_drain_schedule:
  assumes "0 < n"
  shows "run (drain_schedule n (length js))
     \<lparr>PendingJobs = [], ActiveJobCount = c, bDestroyingPool = False,
      Threads = replicate n Polling, owner = Submitting js, waiter = w, executed = ex,
      deleted = dl\<rparr> =
   Some \<lparr>PendingJobs = [], ActiveJobCount = c, bDestroyingPool = True,
         Threads = replicate n Exited, owner = Destroyed, waiter = w,
         executed = ex @ rev js,
      deleted = dl @ filter bDeleteOnFinish (rev js)\<rparr>"
proof -
  have flag: "run [Owner]
     \<lparr>PendingJobs = js, ActiveJobCount = c, bDestroyingPool = False,
      Threads = replicate n Polling, owner = Submitting [], waiter = w, executed = ex,
      deleted = dl\<rparr> =
   Some \<lparr>PendingJobs = js, ActiveJobCount = c, bDestroyingPool = True,
      Threads = replicate n Polling, owner = Joining 0, waiter = w, executed = ex,
      deleted = dl\<rparr>"
    by (simp add: owner_step_def)
  have take: "run (concat (replicate (length js) [Worker 0, Worker 0, Worker 0]))
     \<lparr>PendingJobs = js, ActiveJobCount = c, bDestroyingPool = True,
      Threads = replicate n Polling, owner = Joining 0, waiter = w, executed = ex,
      deleted = dl\<rparr> =
   Some \<lparr>PendingJobs = [], ActiveJobCount = c, bDestroyingPool = True,
      Threads = replicate n Polling, owner = Joining 0, waiter = w,
      executed = ex @ rev js,
      deleted = dl @ filter bDeleteOnFinish (rev js)\<rparr>"
    using assms by (intro run_take_all) simp_all
  have exit: "run (concat (map (\<lambda>i. [Worker i, Worker i]) [0 ..< n]))
     \<lparr>PendingJobs = [], ActiveJobCount = c, bDestroyingPool = True,
      Threads = replicate n Polling, owner = Joining 0, waiter = w,
      executed = ex @ rev js,
      deleted = dl @ filter bDeleteOnFinish (rev js)\<rparr> =
   Some \<lparr>PendingJobs = [], ActiveJobCount = c, bDestroyingPool = True,
      Threads = replicate n Exited, owner = Joining 0, waiter = w,
      executed = ex @ rev js,
      deleted = dl @ filter bDeleteOnFinish (rev js)\<rparr>"
    using run_exit_all [of "[]" n c "Joining 0" w "ex @ rev js"
        "dl @ filter bDeleteOnFinish (rev js)"] by simp
  have join: "run (replicate (Suc n) Owner)
     \<lparr>PendingJobs = [], ActiveJobCount = c, bDestroyingPool = True,
      Threads = replicate n Exited, owner = Joining 0, waiter = w,
      executed = ex @ rev js,
      deleted = dl @ filter bDeleteOnFinish (rev js)\<rparr> =
   Some \<lparr>PendingJobs = [], ActiveJobCount = c, bDestroyingPool = True,
      Threads = replicate n Exited, owner = Destroyed, waiter = w,
      executed = ex @ rev js,
      deleted = dl @ filter bDeleteOnFinish (rev js)\<rparr>"
    by (intro run_join_all) simp_all
  show ?thesis
    unfolding drain_schedule_def
    using run_submit [of js "[]" c False "replicate n Polling" w ex dl] flag take exit join
    by (simp only: run_append option.case append_Nil)
qed

section \<open>Who frees the jobs: claim C5\<close>

lemma step_deleted:
  assumes "step a s = Some s'" and "deleted s = filter bDeleteOnFinish (executed s)"
  shows "deleted s' = filter bDeleteOnFinish (executed s')"
proof (cases a)
  case (Worker k)
  then show ?thesis using assms worker_step_cases [of k s s'] by auto
next
  case Owner
  then show ?thesis using assms owner_step_cases [of s s'] by auto
next
  case Waiter
  then show ?thesis using assms waiter_step_cases [of s s'] by auto
next
  case (Producer func args)
  then show ?thesis using assms producer_step [of func args s s'] by auto
qed

lemma run_deleted:
  "run as s = Some s' \<Longrightarrow> deleted s = filter bDeleteOnFinish (executed s) \<Longrightarrow>
     deleted s' = filter bDeleteOnFinish (executed s')"
  by (induction as arbitrary: s) (auto split: option.splits dest: step_deleted)

lemma step_self_owned:
  assumes "step a s = Some s'" and "\<forall>job \<in> set (all_jobs s). bDeleteOnFinish job"
  shows "\<forall>job \<in> set (all_jobs s'). bDeleteOnFinish job"
proof (cases "is_producer a")
  case False
  then show ?thesis
    using step_all_jobs [OF assms(1)] assms(2) by blast
next
  case True
  then obtain func args where a: "a = Producer func args"
    by (cases a) simp_all
  have "s' = s\<lparr>PendingJobs := PendingJobs s @ [ThreadJob_new func args]\<rparr>"
    using assms(1) a producer_step by simp
  then show ?thesis
    using assms(2) by (auto simp: all_jobs_def ThreadJob_new_def)
qed

lemma run_self_owned:
  "run as s = Some s' \<Longrightarrow> \<forall>job \<in> set (all_jobs s). bDeleteOnFinish job \<Longrightarrow>
     \<forall>job \<in> set (all_jobs s'). bDeleteOnFinish job"
proof (induction as arbitrary: s)
  case Nil
  then show ?case by simp
next
  case (Cons a as)
  then obtain t where t: "step a s = Some t" "run as t = Some s'"
    by (auto split: option.splits)
  show ?case
    using Cons.IH [OF t(2)] step_self_owned [OF t(1) Cons.prems(2)] by simp
qed

text \<open>
  Claim C5, as amended: every job of \<^verbatim>\<open>IterateWeighted\<close> is built by
  \<^verbatim>\<open>AddFunctionToPool\<close>, so its auto-delete flag is true: the job is owned by itself and
  frees itself after its one execution.  There is one job per entry of \<^verbatim>\<open>sections\<close>,
  and one entry per thread of the pool.  Along every interleaving of the pool, every job
  in it has the flag set and every executed job has freed itself.  The jobs of
  \<^verbatim>\<open>Iterate\<close> are the ones with the flag false.
\<close>

theorem IterateWeighted_jobs_self_owned:
  assumes "IterateWeighted_plan ar DefaultThreadCount cores weightFunc poolSize data = Inr p"
  shows "(\<forall>job \<in> set (jobs p). bDeleteOnFinish job \<and> Function job = iterSection)
     \<and> length (jobs p) = length (ranges p)
     \<and> length (ranges p) = threadCount p
     \<and> threadCount p = effectiveWorkers DefaultThreadCount cores poolSize (elementCount data)
     \<and> (\<exists>s0. IterateWeighted ar DefaultThreadCount cores weightFunc poolSize data = Inr s0
          \<and> owner s0 = Submitting (jobs p)
          \<and> (\<forall>as s. run as s0 = Some s \<longrightarrow>
                (\<forall>job \<in> set (all_jobs s). bDeleteOnFinish job) \<and> deleted s = executed s))
     \<and> (\<forall>job \<in> set (owner_jobs (owner (Iterate DefaultThreadCount cores poolSize data))).
          \<not> bDeleteOnFinish job)"
proof -
  note plan = IterateWeighted_plan_Inr [OF assms]
  have flags: "\<forall>job \<in> set (jobs p). bDeleteOnFinish job \<and> Function job = iterSection"
    using plan by (auto simp: ThreadJob_new_def)
  define s0 where "s0 = (KThreadPool DefaultThreadCount cores
      (clampPoolSize cores poolSize (elementCount data)))\<lparr>owner := Submitting (jobs p)\<rparr>"
  have start: "IterateWeighted ar DefaultThreadCount cores weightFunc poolSize data = Inr s0"
    by (simp add: IterateWeighted_def assms s0_def)
  have all0: "\<forall>job \<in> set (all_jobs s0). bDeleteOnFinish job"
    using flags by (auto simp: all_jobs_def s0_def pool_record no_worker_jobs_Polling)
  have del0: "deleted s0 = filter bDeleteOnFinish (executed s0)"
    by (simp add: s0_def pool_record)
  have runs: "(\<forall>job \<in> set (all_jobs s). bDeleteOnFinish job) \<and> deleted s = executed s"
    if "run as s0 = Some s" for as s
  proof -
    have all: "\<forall>job \<in> set (all_jobs s). bDeleteOnFinish job"
      using run_self_owned [OF that all0] .
    then have "\<forall>job \<in> set (executed s). bDeleteOnFinish job"
      using executed_subset_all_jobs [of s] by blast
    then have "filter bDeleteOnFinish (executed s) = executed s"
      by (simp add: filter_id_conv)
    then show ?thesis
      using all run_deleted [OF that del0] by simp
  qed
  have iter: "\<forall>job \<in> set (owner_jobs (owner (Iterate DefaultThreadCount cores poolSize data))).
      \<not> bDeleteOnFinish job"
    by (auto simp: Iterate_def ThreadJob_new_flag_def)
  have "owner s0 = Submitting (jobs p)"
    by (simp add: s0_def)
  with start runs have pool: "\<exists>s0. IterateWeighted ar DefaultThreadCount cores weightFunc
        poolSize data = Inr s0
      \<and> owner s0 = Submitting (jobs p)
      \<and> (\<forall>as s. run as s0 = Some s \<longrightarrow>
            (\<forall>job \<in> set (all_jobs s). bDeleteOnFinish job) \<and> deleted s = executed s)"
    by blast
  show ?thesis
    using flags plan pool iter by simp
qed

theorem IterateWeighted_jobs_self_owned_witness:
  "IterateWeighted_plan exact 0 8 (\<lambda>p. 1) 3 (Objects 100 3) =
     Inr \<lparr>threadCount = 3,
          ranges = [\<lparr>Start = 0, End = 1\<rparr>, \<lparr>Start = 2, End = 2\<rparr>, \<lparr>Start = 0, End = 0\<rparr>],
          jobs = [\<lparr>Function = iterSection, Args = [0, 1], bDeleteOnFinish = True\<rparr>,
                  \<lparr>Function = iterSection, Args = [2, 2], bDeleteOnFinish = True\<rparr>,
                  \<lparr>Function = iterSection, Args = [0, 0], bDeleteOnFinish = True\<rparr>],
          weightCallCount = 6\<rparr>
   \<and> list_all bDeleteOnFinish
       [\<lparr>Function = iterSection, Args = [0, 1], bDeleteOnFinish = True\<rparr>,
        \<lparr>Function = iterSection, Args = [2, 2], bDeleteOnFinish = True\<rparr>,
        \<lparr>Function = iterSection, Args = [0, 0], bDeleteOnFinish = True\<rparr>]
   \<and> (\<exists>s0 s. IterateWeighted exact 0 8 (\<lambda>p. 1) 3 (Objects 100 3) = Inr s0
         \<and> run [Owner, Worker 0, Worker 0, Worker 0] s0 = Some s
         \<and> executed s = [\<lparr>Function = iterSection, Args = [0, 1], bDeleteOnFinish = True\<rparr>]
         \<and> deleted s = executed s)
   \<and> list_all (\<lambda>job. \<not> bDeleteOnFinish job)
        (owner_jobs (owner (Iterate 0 8 3 (Objects 100 3))))"
proof -
  let ?plan = "\<lparr>threadCount = 3,
          ranges = [\<lparr>Start = 0, End = 1\<rparr>, \<lparr>Start = 2, End = 2\<rparr>, \<lparr>Start = 0, End = 0\<rparr>],
          jobs = [\<lparr>Function = iterSection, Args = [0, 1], bDeleteOnFinish = True\<rparr>,
                  \<lparr>Function = iterSection, Args = [2, 2], bDeleteOnFinish = True\<rparr>,
                  \<lparr>Function = iterSection, Args = [0, 0], bDeleteOnFinish = True\<rparr>],
          weightCallCount = 6\<rparr>"
  have plan: "IterateWeighted_plan exact 0 8 (\<lambda>p. 1) 3 (Objects 100 3) = Inr ?plan"
    by code_simp
  note facts = IterateWeighted_jobs_self_owned [OF plan]
  from facts obtain s0 where s0: "IterateWeighted exact 0 8 (\<lambda>p. 1) 3 (Objects 100 3) = Inr s0"
    and runs: "\<forall>as s. run as s0 = Some s \<longrightarrow>
        (\<forall>job \<in> set (all_jobs s). bDeleteOnFinish job) \<and> deleted s = executed s"
    by blast
  have "map_sum id (\<lambda>s0. map_option executed (run [Owner, Worker 0, Worker 0, Worker 0] s0))
      (IterateWeighted exact 0 8 (\<lambda>p. 1) 3 (Objects 100 3)) =
      Inr (Some [\<lparr>Function = iterSection, Args = [0, 1], bDeleteOnFinish = True\<rparr>])"
    by code_simp
  then obtain s where s: "run [Owner, Worker 0, Worker 0, Worker 0] s0 = Some s"
      "executed s = [\<lparr>Function = iterSection, Args = [0, 1], bDeleteOnFinish = True\<rparr>]"
    using s0 by auto
  have "deleted s = executed s"
    using runs s(1) by blast
  then have pool: "\<exists>s0 s. IterateWeighted exact 0 8 (\<lambda>p. 1) 3 (Objects 100 3) = Inr s0
         \<and> run [Owner, Worker 0, Worker 0, Worker 0] s0 = Some s
         \<and> executed s = [\<lparr>Function = iterSection, Args = [0, 1], bDeleteOnFinish = True\<rparr>]
         \<and> deleted s = executed s"
    using s0 s by blast
  have "list_all (\<lambda>job. \<not> bDeleteOnFinish job)
        (owner_jobs (owner (Iterate 0 8 3 (Objects 100 3))))"
    using facts by (simp add: list_all_iff)
  then show ?thesis
    using plan pool by simp
qed

text \<open>
  Claim C5 as stated fails: the one job that \<^verbatim>\<open>IterateWeighted\<close> builds for a sequence
  of one element has its auto-delete flag set.
\<close>

theorem IterateWeighted_jobs_counterexample:
  "map_sum id (\<lambda>p. map bDeleteOnFinish (jobs p))
     (IterateWeighted_plan exact 0 8 (\<lambda>p. 1) 1 (Objects 100 1)) = Inr [True]"
  by code_simp
section \<open>The destructor completes from every state\<close>

text \<open>
  Whatever the threads have done so far, the destructor can still complete: the owner
  pushes what it holds and sets the flag; every worker in turn finishes the job it
  holds, takes what it finds queued, finds the queue empty and the flag set, and
  returns; the owner joins the threads one after the other.  No thread waits for
  another one before the joins, and the joins wait for threads that have returned.
\<close>

lemma run_then:
  assumes "run as s = Some t" and "run bs t = Some u"
  shows "run (as @ bs) s = Some u"
  using assms by (simp add: run_append)

lemma worker_returns_from_Polling:
  assumes "i < length (Threads s)" and "Threads s ! i = Polling" and "bDestroyingPool s"
  shows "\<exists>bs t. set bs \<subseteq> {Worker i} \<and> run bs s = Some t
     \<and> Threads t = (Threads s)[i := Exited] \<and> owner t = owner s \<and> bDestroyingPool t"
  using assms
proof (induction m \<equiv> "length (PendingJobs s)" arbitrary: s)
  case 0
  then have "run [Worker i, Worker i] s = Some (s\<lparr>Threads := (Threads s)[i := Exited]\<rparr>)"
    by (simp add: worker_step_def claim_empty)
  moreover have "set [Worker i, Worker i] \<subseteq> {Worker i}"
    by simp
  ultimately show ?case
    using "0.prems"(3) by (intro exI conjI) (assumption | simp)+
next
  case (Suc m)
  let ?t = "snd (TakeNewJob s)"
  have ne: "PendingJobs s \<noteq> []"
    using Suc.hyps(2) by auto
  have take: "run [Worker i, Worker i, Worker i] s = Some ?t"
    using Suc.prems(1,2) ne by (rule worker_steps_TakeNewJob)
  have t: "Threads ?t = Threads s" "owner ?t = owner s" "bDestroyingPool ?t"
      "PendingJobs ?t = butlast (PendingJobs s)"
    using ne Suc.prems(3) by (simp_all add: TakeNewJob_nonempty Execute_eq)
  have "m = length (PendingJobs ?t)"
    using t(4) Suc.hyps(2) by simp
  from Suc.hyps(1) [OF this] Suc.prems t
  obtain bs u where bs: "set bs \<subseteq> {Worker i}" and u: "run bs ?t = Some u"
      "Threads u = (Threads s)[i := Exited]" "owner u = owner s" "bDestroyingPool u"
    by auto
  have "set ([Worker i, Worker i, Worker i] @ bs) \<subseteq> {Worker i}"
    using bs by simp
  with run_then [OF take u(1)] u(2-) show ?case
    by blast
qed

lemma worker_returns:
  assumes "i < length (Threads s)" and "bDestroyingPool s"
  shows "\<exists>bs t. set bs \<subseteq> {Worker i} \<and> run bs s = Some t
     \<and> Threads t = (Threads s)[i := Exited] \<and> owner t = owner s \<and> bDestroyingPool t"
proof -
  have via: ?thesis
    if pre: "set as \<subseteq> {Worker i}" "run as s = Some t" "Threads t = (Threads s)[i := Polling]"
      "owner t = owner s" "bDestroyingPool t" for as t
  proof -
    have "i < length (Threads t)" "Threads t ! i = Polling"
      using assms(1) pre(3) by simp_all
    from worker_returns_from_Polling [OF this pre(5)]
    obtain bs u where bs: "set bs \<subseteq> {Worker i}" and u: "run bs t = Some u"
        "Threads u = (Threads t)[i := Exited]" "owner u = owner t" "bDestroyingPool u"
      by blast
    have "set (as @ bs) \<subseteq> {Worker i}"
      using pre(1) bs by simp
    moreover have "Threads u = (Threads s)[i := Exited]"
      using u(2) pre(3) by simp
    ultimately show ?thesis
      using run_then [OF pre(2) u(1)] u(3,4) pre(4) by metis
  qed
  show ?thesis
  proof (cases "Threads s ! i")
    case Polling
    then have "Threads s = (Threads s)[i := Polling]"
      by (metis list_update_id)
    then show ?thesis
      using via [of "[]" s] assms(2) by simp
  next
    case (Executing job)
    have "run [Worker i, Worker i] s =
        Some (s\<lparr>executed := executed s @ [job],
                deleted := deleted s @ filter bDeleteOnFinish [job],
                ActiveJobCount := ActiveJobCount s - 1,
                Threads := (Threads s)[i := Polling]\<rparr>)"
      using assms(1) Executing by (simp add: worker_step_def Execute_eq)
    then show ?thesis
      using assms(2) by (intro via [of "[Worker i, Worker i]"]) (assumption | simp)+
  next
    case Finishing
    have "run [Worker i] s =
        Some (s\<lparr>ActiveJobCount := ActiveJobCount s - 1, Threads := (Threads s)[i := Polling]\<rparr>)"
      using assms(1) Finishing by (simp add: worker_step_def)
    then show ?thesis
      using assms(2) by (intro via [of "[Worker i]"]) (assumption | simp)+
  next
    case Checking
    have "run [Worker i] s = Some (s\<lparr>Threads := (Threads s)[i := Exited]\<rparr>)"
      using assms Checking by (simp add: worker_step_def)
    moreover have "set [Worker i] \<subseteq> {Worker i}"
      by simp
    ultimately show ?thesis
      using assms(2) by (intro exI conjI) (assumption | simp)+
  next
    case Exited
    then have "Threads s = (Threads s)[i := Exited]"
      by (metis list_update_id)
    moreover have "run [] s = Some s" "set [] \<subseteq> {Worker i}"
      by simp_all
    ultimately show ?thesis
      using assms(2) by blast
  qed
qed

lemma workers_return:
  assumes "bDestroyingPool s" and "k \<le> length (Threads s)"
  shows "\<exists>bs t. (\<forall>a \<in> set bs. \<not> is_producer a) \<and> run bs s = Some t
     \<and> length (Threads t) = length (Threads s) \<and> (\<forall>i<k. Threads t ! i = Exited)
     \<and> owner t = owner s \<and> bDestroyingPool t"
  using assms(2)
proof (induction k)
  case 0
  have "run [] s = Some s"
    by simp
  then show ?case
    using assms(1) by (intro exI [of _ "[]"] exI [of _ s]) simp
next
  case (Suc k)
  then obtain as t where as: "\<forall>a \<in> set as. \<not> is_producer a" and t: "run as s = Some t"
      "length (Threads t) = length (Threads s)" "\<forall>i<k. Threads t ! i = Exited"
      "owner t = owner s" "bDestroyingPool t"
    by auto
  have k: "k < length (Threads t)"
    using Suc.prems t(2) by simp
  from worker_returns [OF this t(5)]
  obtain bs u where bs: "set bs \<subseteq> {Worker k}" and u: "run bs t = Some u"
      "Threads u = (Threads t)[k := Exited]" "owner u = owner t" "bDestroyingPool u"
    by blast
  have "\<forall>a \<in> set (as @ bs). \<not> is_producer a"
    using as bs by auto
  moreover have "\<forall>i<Suc k. Threads u ! i = Exited"
    using t(3) u(2) k by (auto simp: nth_list_update less_Suc_eq)
  moreover have "length (Threads u) = length (Threads s)"
    using u(2) t(2) by simp
  ultimately show ?case
    using run_then [OF t(1) u(1)] u(3,4) t(4) by metis
qed

lemma owner_joins:
  assumes "owner s = Joining k" and "\<forall>i<length (Threads s). Threads s ! i = Exited"
  shows "\<exists>bs t. (\<forall>a \<in> set bs. \<not> is_producer a) \<and> run bs s = Some t \<and> owner t = Destroyed"
  using assms
proof (induction m \<equiv> "length (Threads s) - k" arbitrary: s k)
  case 0
  then have "run [Owner] s = Some (s\<lparr>owner := Destroyed\<rparr>)"
    by (simp add: owner_step_def)
  moreover have "\<forall>a \<in> set [Owner]. \<not> is_producer a"
    by simp
  ultimately show ?case
    by (intro exI conjI) (assumption | simp)+
next
  case (Suc m)
  then have k: "k < length (Threads s)"
    by simp
  let ?t = "s\<lparr>owner := Joining (k + 1)\<rparr>"
  have one: "run [Owner] s = Some ?t"
    using Suc.prems k by (simp add: owner_step_def)
  have "m = length (Threads ?t) - (k + 1)"
    using Suc.hyps(2) by simp
  from Suc.hyps(1) [OF this] Suc.prems(2)
  obtain bs u where bs: "\<forall>a \<in> set bs. \<not> is_producer a" and u: "run bs ?t = Some u"
      "owner u = Destroyed"
    by auto
  have "\<forall>a \<in> set ([Owner] @ bs). \<not> is_producer a"
    using bs by simp
  with run_then [OF one u(1)] u(2) show ?case
    by blast
qed

lemma owner_sets_flag:
  assumes "owner s = Submitting js"
  shows "\<exists>bs t. (\<forall>a \<in> set bs. \<not> is_producer a) \<and> run bs s = Some t
     \<and> owner t = Joining 0 \<and> bDestroyingPool t"
  using assms
proof (induction js arbitrary: s)
  case Nil
  then have "run [Owner] s = Some (s\<lparr>bDestroyingPool := True, owner := Joining 0\<rparr>)"
    by (simp add: owner_step_def)
  moreover have "\<forall>a \<in> set [Owner]. \<not> is_producer a"
    by simp
  ultimately show ?case
    by (intro exI conjI) (assumption | simp)+
next
  case (Cons job js)
  let ?t = "(AddJobToPool job s)\<lparr>owner := Submitting js\<rparr>"
  have one: "run [Owner] s = Some ?t"
    using Cons.prems by (simp add: owner_step_def)
  have "owner ?t = Submitting js"
    by simp
  from Cons.IH [OF this]
  obtain bs u where bs: "\<forall>a \<in> set bs. \<not> is_producer a" and u: "run bs ?t = Some u"
      "owner u = Joining 0" "bDestroyingPool u"
    by blast
  have "\<forall>a \<in> set ([Owner] @ bs). \<not> is_producer a"
    using bs by simp
  with run_then [OF one u(1)] u(2,3) show ?case
    by blast
qed

lemma owner_enters_destructor:
  assumes "dtor_inv s" and "owner s \<noteq> Destroyed"
  shows "\<exists>bs t. (\<forall>a \<in> set bs. \<not> is_producer a) \<and> run bs s = Some t
     \<and> (\<exists>k. owner t = Joining k) \<and> bDestroyingPool t"
proof (cases "owner s")
  case (Bulk js)
  let ?t = "s\<lparr>PendingJobs := PendingJobs s @ js, owner := Submitting []\<rparr>"
  have one: "run [Owner] s = Some ?t"
    using Bulk by (simp add: owner_step_def)
  have "owner ?t = Submitting []"
    by simp
  from owner_sets_flag [OF this]
  obtain bs u where bs: "\<forall>a \<in> set bs. \<not> is_producer a" and u: "run bs ?t = Some u"
      "owner u = Joining 0" "bDestroyingPool u"
    by blast
  have "\<forall>a \<in> set ([Owner] @ bs). \<not> is_producer a"
    using bs by simp
  with run_then [OF one u(1)] u(2,3) show ?thesis
    by blast
next
  case (Submitting js)
  from owner_sets_flag [OF this] show ?thesis
    by blast
next
  case (Joining k)
  then have "bDestroyingPool s"
    using assms(1) by (simp add: dtor_inv_def)
  moreover have "run [] s = Some s" "\<forall>a \<in> set []. \<not> is_producer a"
    by simp_all
  ultimately show ?thesis
    using Joining by blast
next
  case Destroyed
  with assms(2) show ?thesis
    by simp
qed

text \<open>
  From every state in which the owner is not inside the destructor with the flag unset,
  there is a continuation, without a further submission, along which the destructor
  completes.
\<close>

lemma destructor_can_complete:
  assumes "dtor_inv s"
  shows "\<exists>bs t. (\<forall>a \<in> set bs. \<not> is_producer a) \<and> run bs s = Some t \<and> owner t = Destroyed"
proof (cases "owner s = Destroyed")
  case True
  moreover have "run [] s = Some s" "\<forall>a \<in> set []. \<not> is_producer a"
    by simp_all
  ultimately show ?thesis
    by blast
next
  case False
  from owner_enters_destructor [OF assms False]
  obtain as t k where as: "\<forall>a \<in> set as. \<not> is_producer a" and t: "run as s = Some t"
      "owner t = Joining k" "bDestroyingPool t"
    by blast
  from workers_return [OF t(3) order_refl]
  obtain bs u where bs: "\<forall>a \<in> set bs. \<not> is_producer a" and u: "run bs t = Some u"
      "length (Threads u) = length (Threads t)" "\<forall>i<length (Threads t). Threads u ! i = Exited"
      "owner u = owner t"
    by blast
  have "owner u = Joining k" "\<forall>i<length (Threads u). Threads u ! i = Exited"
    using u(2,3,4) t(2) by simp_all
  from owner_joins [OF this]
  obtain cs v where cs: "\<forall>a \<in> set cs. \<not> is_producer a" and v: "run cs u = Some v"
      "owner v = Destroyed"
    by blast
  have "\<forall>a \<in> set (as @ bs @ cs). \<not> is_producer a"
    using as bs cs by auto
  with run_then [OF t(1) run_then [OF u(1) v(1)]] v(2) show ?thesis
    by blast
qed

section \<open>Every run inside the destructor is finite\<close>

text \<open>
  Once the flag is set and the owner is inside the destructor, every step of a worker or
  of the owner takes one from the work left: no interleaving of the threads of the pool
  goes on for ever, whatever the scheduler does.
\<close>

lemma sum_list_pc_update:
  "i < length ts \<Longrightarrow>
     sum_list (map pc_weight (ts[i := w])) + pc_weight (ts ! i)
       = sum_list (map pc_weight ts) + pc_weight w"
proof (induction ts arbitrary: i)
  case Nil
  then show ?case by simp
next
  case (Cons t ts)
  then show ?case by (cases i) auto
qed

lemma step_remaining:
  assumes "step a s = Some s'" and "is_thread a"
    and "bDestroyingPool s" and "\<not> before_destructor (owner s)"
  shows "remaining s' < remaining s \<and> bDestroyingPool s' \<and> \<not> before_destructor (owner s')"
proof (cases a)
  case (Worker i)
  with assms(1) have w: "worker_step i s = Some s'"
    by simp
  from worker_step_cases [OF w] have i: "i < length (Threads s)"
    by simp
  note upd = sum_list_pc_update [OF i]
  from worker_step_cases [OF w] assms(3)
  consider (take) "Threads s ! i = Polling" "PendingJobs s \<noteq> []"
      "s' = s\<lparr>PendingJobs := butlast (PendingJobs s),
               ActiveJobCount := ActiveJobCount s + 1,
               Threads := (Threads s)[i := Executing (last (PendingJobs s))]\<rparr>"
    | (miss) "Threads s ! i = Polling"
      "s' = s\<lparr>Threads := (Threads s)[i := Checking]\<rparr>"
    | (exec) job where "Threads s ! i = Executing job"
      "s' = s\<lparr>executed := executed s @ [job],
               deleted := deleted s @ filter bDeleteOnFinish [job],
               Threads := (Threads s)[i := Finishing]\<rparr>"
    | (dec) "Threads s ! i = Finishing"
      "s' = s\<lparr>ActiveJobCount := ActiveJobCount s - 1, Threads := (Threads s)[i := Polling]\<rparr>"
    | (exit) "Threads s ! i = Checking"
      "s' = s\<lparr>Threads := (Threads s)[i := Exited]\<rparr>"
    by blast
  then show ?thesis
  proof cases
    case take
    then obtain m where "length (PendingJobs s) = Suc m"
      by (cases "PendingJobs s") simp_all
    with take(1,3) upd [of "Executing (last (PendingJobs s))"] assms(3,4) show ?thesis
      by (simp add: remaining_def)
  next
    case miss
    with upd [of Checking] assms(3,4) show ?thesis
      by (simp add: remaining_def)
  next
    case exec
    with upd [of Finishing] assms(3,4) show ?thesis
      by (simp add: remaining_def)
  next
    case dec
    with upd [of Polling] assms(3,4) show ?thesis
      by (simp add: remaining_def)
  next
    case exit
    with upd [of Exited] assms(3,4) show ?thesis
      by (simp add: remaining_def)
  qed
next
  case Owner
  with assms(1) have "owner_step s = Some s'"
    by simp
  from owner_step_cases [OF this] assms(3,4) show ?thesis
    by (auto simp: remaining_def)
next
  case Waiter
  with assms(2) show ?thesis by simp
next
  case (Producer func args)
  with assms(2) show ?thesis by simp
qed

lemma run_remaining:
  assumes "run as s = Some t" and "\<forall>a \<in> set as. is_thread a"
    and "bDestroyingPool s" and "\<not> before_destructor (owner s)"
  shows "length as + remaining t \<le> remaining s"
  using assms
proof (induction as arbitrary: s)
  case Nil
  then show ?case by simp
next
  case (Cons a as)
  then obtain s' where s': "step a s = Some s'" "run as s' = Some t"
    by (auto split: option.splits)
  from step_remaining [OF s'(1)] Cons.prems
  have "remaining s' < remaining s" "bDestroyingPool s'" "\<not> before_destructor (owner s')"
    by simp_all
  with Cons.IH [OF s'(2)] Cons.prems(2) show ?case
    by simp
qed

text \<open>
  And no state is stuck before the destructor has completed: the owner can take a step,
  or it waits for a thread that can take one.
\<close>

lemma not_stuck:
  assumes "owner s \<noteq> Destroyed"
  shows "step Owner s \<noteq> None \<or> (\<exists>i<length (Threads s). step (Worker i) s \<noteq> None)"
proof (cases "step Owner s")
  case (Some s')
  then show ?thesis by simp
next
  case None
  then obtain k where k: "owner s = Joining k" "k < length (Threads s)"
      "Threads s ! k \<noteq> Exited"
    using assms
    by (auto simp: owner_step_def split: owner_pc.splits list.splits if_splits)
  then have "worker_step k s \<noteq> None"
    by (cases "Threads s ! k")
      (auto simp: worker_step_def split: prod.splits option.splits)
  with k(2) show ?thesis
    by auto
qed

section \<open>\<^verbatim>\<open>IterateWeighted\<close> on an empty sequence: claim C10\<close>

text \<open>
  The weight function is called once for every element by the first loop and once for
  every element by the scan.
\<close>

lemma total_weight_calls:
  "total_weight ar weightFunc data is acc = Inr (t, c) \<Longrightarrow> c = snd acc + length is"
proof (induction "is" arbitrary: acc)
  case Nil
  then show ?case by auto
next
  case (Cons i "is")
  then obtain p where p: "elem_ptr data i = Inr p"
    by (cases "elem_ptr data i") simp_all
  with Cons.prems
  have "total_weight ar weightFunc data is (w_add ar (fst acc) (weightFunc p), snd acc + 1)
      = Inr (t, c)"
    by simp
  from Cons.IH [OF this] show ?case by simp
qed

lemma scan_calls:
  assumes "scan ar weightFunc data targetWeight i st = Inr st'"
  shows "weightCalls st' = weightCalls st + (elementCount data - i)"
  using assms
proof (induction k \<equiv> "elementCount data - i" arbitrary: i st)
  case 0
  then show ?case by (simp add: scan_done)
next
  case (Suc k)
  then have i: "i < elementCount data" and k: "k = elementCount data - (i + 1)"
    by simp_all
  show ?case
  proof (cases "elem_ptr data i")
    case (Inl e)
    with Suc.prems i show ?thesis by (simp add: scan_read_error)
  next
    case (Inr p)
    show ?thesis
    proof (cases "i < elementCount data - 1
        \<and> w_le ar (w_add ar (accumWeight st) (weightFunc p)) targetWeight")
      case True
      then have "scan ar weightFunc data targetWeight (i + 1)
          (st\<lparr>weightCalls := weightCalls st + 1,
              accumWeight := w_add ar (accumWeight st) (weightFunc p)\<rparr>) = Inr st'"
        using Suc.prems(1) i Inr by (simp add: scan_keep)
      from Suc.hyps(1) [OF k this] i show ?thesis by simp
    next
      case False
      then have "scan ar weightFunc data targetWeight (i + 1)
         (st\<lparr>weightCalls := weightCalls st + 1,
             sections := (sections st)[sectionIndex st := \<lparr>Start = newStart st, End = i\<rparr>],
             accumWeight := w_zero ar, newStart := i + 1,
             sectionIndex := sectionIndex st + 1\<rparr>) = Inr st'"
        using Suc.prems(1) i Inr by (simp_all add: scan_close split: if_splits)
      from Suc.hyps(1) [OF k this] i show ?thesis by simp
    qed
  qed
qed

lemma IterateWeighted_plan_calls:
  assumes "IterateWeighted_plan ar d cores weightFunc poolSize data = Inr p"
  shows "weightCallCount p = 2 * elementCount data"
proof -
  obtain t c where
    t: "total_weight ar weightFunc data [0 ..< elementCount data] (w_zero ar, 0) = Inr (t, c)"
    using assms
    by (cases "total_weight ar weightFunc data [0 ..< elementCount data] (w_zero ar, 0)")
      (auto simp: IterateWeighted_plan_def)
  define n where "n = effectiveWorkers d cores poolSize (elementCount data)"
  define st0 where "st0 = \<lparr>accumWeight = w_zero ar, sectionIndex = 0, newStart = 0,
                    sections = replicate n \<lparr>Start = 0, End = 0\<rparr>,
                    weightCalls = c\<rparr>"
  obtain st where st: "scan ar weightFunc data (w_div ar t n) 0 st0 = Inr st"
    using assms t by (cases "scan ar weightFunc data (w_div ar t n) 0 st0")
      (simp_all add: IterateWeighted_plan_def Let_def n_def st0_def)
  have "weightCallCount p = weightCalls st"
    using assms t st by (auto simp: IterateWeighted_plan_def Let_def n_def st0_def)
  also have "\<dots> = c + elementCount data"
    using scan_calls [OF st] by (simp add: st0_def)
  also have "c = elementCount data"
    using total_weight_calls [OF t] by simp
  finally show ?thesis by simp
qed

lemma IterateWeighted_plan_empty:
  assumes "elementCount data = 0"
  shows "IterateWeighted_plan ar d cores weightFunc poolSize data =
     Inr \<lparr>threadCount = effectiveWorkers d cores poolSize 0,
          ranges = replicate (effectiveWorkers d cores poolSize 0) \<lparr>Start = 0, End = 0\<rparr>,
          jobs = replicate (effectiveWorkers d cores poolSize 0)
                   (ThreadJob_new iterSection [0, 0]),
          weightCallCount = 0\<rparr>"
  using assms by (simp add: IterateWeighted_plan_def Let_def scan_done)

text \<open>
  Claim C10: on an empty sequence \<^verbatim>\<open>IterateWeighted\<close> computes its sections without
  error and without a call of the weight function, neither in the first loop nor in the
  scan; none of its jobs reaches the dispatcher; along every interleaving of the threads
  of its pool, to which nobody else submits, no callback is invoked; and from every
  state such an interleaving reaches, wherever the owner and the workers stand, the
  interleaving can go on until the destructor has completed, that is, until the call
  returns: no state is reached in which the owner waits for a thread that cannot
  return.  The interleaving of no step is one of them, so the call can return from its
  first state as well.
\<close>

theorem IterateWeighted_empty:
  assumes "elementCount data = 0"
  shows "\<exists>p s0. IterateWeighted_plan ar d cores weightFunc poolSize data = Inr p
     \<and> weightCallCount p = 0 \<and> visited p = []
     \<and> IterateWeighted ar d cores weightFunc poolSize data = Inr s0
     \<and> (\<forall>as s. run as s0 = Some s \<and> (\<forall>a \<in> set as. \<not> is_producer a) \<longrightarrow> invoked s = [])
     \<and> (\<forall>as s. run as s0 = Some s \<and> (\<forall>a \<in> set as. \<not> is_producer a) \<longrightarrow>
          (\<exists>bs t. (\<forall>a \<in> set bs. \<not> is_producer a) \<and> run bs s = Some t
                 \<and> owner t = Destroyed \<and> invoked t = []))"
proof -
  define n where "n = effectiveWorkers d cores poolSize 0"
  define job where "job = ThreadJob_new iterSection [0, 0]"
  define p where "p = \<lparr>threadCount = n, ranges = replicate n \<lparr>Start = 0, End = 0\<rparr>,
      jobs = replicate n job, weightCallCount = 0\<rparr>"
  define s0 where "s0 = \<lparr>PendingJobs = [], ActiveJobCount = 0, bDestroyingPool = False,
      Threads = replicate n Polling, owner = Submitting (replicate n job),
      waiter = NotWaiting, executed = [],
      deleted = []\<rparr>"
  have plan: "IterateWeighted_plan ar d cores weightFunc poolSize data = Inr p"
    using IterateWeighted_plan_empty [OF assms] by (simp add: p_def n_def job_def)
  have none: "callback_indices job = []"
    by (simp add: job_def ThreadJob_new_def callback_indices_def)
  have visited: "visited p = []"
    by (simp add: visited_def p_def none)
  have start: "IterateWeighted ar d cores weightFunc poolSize data = Inr s0"
    using assms
    by (simp add: IterateWeighted_def plan pool_record s0_def p_def n_def effectiveWorkers_def)
  have all: "set (all_jobs s0) \<subseteq> {job}"
    by (auto simp: all_jobs_def s0_def no_worker_jobs_Polling)
  have safe: "invoked s = []"
    if "run as s0 = Some s" and "\<forall>a \<in> set as. \<not> is_producer a" for as s
  proof -
    have "set (executed s) \<subseteq> set (all_jobs s0)"
      using run_all_jobs [OF that] executed_subset_all_jobs [of s] by blast
    then have "\<forall>j \<in> set (executed s). callback_indices j = []"
      using all none by blast
    then show ?thesis by (rule invoked_empty)
  qed
  have inv: "dtor_inv s0"
    by (rule before_destructor_dtor_inv) (simp add: s0_def)
  have live: "\<exists>bs t. (\<forall>a \<in> set bs. \<not> is_producer a) \<and> run bs s = Some t
      \<and> owner t = Destroyed \<and> invoked t = []"
    if as: "run as s0 = Some s" "\<forall>a \<in> set as. \<not> is_producer a" for as s
  proof -
    have "dtor_inv s"
      using as(1) inv by (rule run_dtor_inv)
    from destructor_can_complete [OF this]
    obtain bs t where bs: "\<forall>a \<in> set bs. \<not> is_producer a" and t: "run bs s = Some t"
        "owner t = Destroyed"
      by blast
    have "run (as @ bs) s0 = Some t" "\<forall>a \<in> set (as @ bs). \<not> is_producer a"
      using run_then [OF as(1) t(1)] as(2) bs by auto
    then have "invoked t = []"
      by (rule safe)
    with bs t show ?thesis
      by blast
  qed
  have calls: "weightCallCount p = 0"
    using IterateWeighted_plan_calls [OF plan] assms by simp
  have safe': "\<forall>as s. run as s0 = Some s \<and> (\<forall>a \<in> set as. \<not> is_producer a) \<longrightarrow> invoked s = []"
    using safe by blast
  have live': "\<forall>as s. run as s0 = Some s \<and> (\<forall>a \<in> set as. \<not> is_producer a) \<longrightarrow>
          (\<exists>bs t. (\<forall>a \<in> set bs. \<not> is_producer a) \<and> run bs s = Some t
                 \<and> owner t = Destroyed \<and> invoked t = [])"
    using live by blast
  show ?thesis
    using plan calls visited start safe' live' by blast
qed

text \<open>
  The theorem at an empty sequence of objects, with one core and so one thread and one
  job, and at the state the steps worker, owner, owner lead to: the worker has found the
  queue empty and is about to read the flag, the job is queued, and the owner is inside
  the destructor, about to join the worker.
\<close>

theorem IterateWeighted_empty_witness:
  "elementCount (Objects 100 0) = 0
   \<and> map_sum id (\<lambda>p. (weightCallCount p, visited p))
       (IterateWeighted_plan exact 0 1 (\<lambda>p. 1) 3 (Objects 100 0)) = Inr (0, [])
   \<and> (\<exists>s0 s. IterateWeighted exact 0 1 (\<lambda>p. 1) 3 (Objects 100 0) = Inr s0
         \<and> run [Worker 0, Owner, Owner] s0 = Some s
         \<and> Threads s = [Checking] \<and> owner s = Joining 0 \<and> bDestroyingPool s
         \<and> PendingJobs s = [ThreadJob_new iterSection [0, 0]]
         \<and> invoked s = []
         \<and> (\<exists>bs t. list_all (\<lambda>a. \<not> is_producer a) bs \<and> run bs s = Some t
                \<and> owner t = Destroyed \<and> invoked t = []))"
proof -
  let ?sched = "[Worker 0, Owner, Owner]"
  have e: "elementCount (Objects 100 0) = 0"
    by simp
  from IterateWeighted_empty [OF e, of exact 0 1 "\<lambda>p. 1" 3]
  obtain p s0 where p: "IterateWeighted_plan exact 0 1 (\<lambda>p. 1) 3 (Objects 100 0) = Inr p"
      "weightCallCount p = 0" "visited p = []"
    and s0: "IterateWeighted exact 0 1 (\<lambda>p. 1) 3 (Objects 100 0) = Inr s0"
    and safe: "\<forall>as s. run as s0 = Some s \<and> (\<forall>a \<in> set as. \<not> is_producer a) \<longrightarrow> invoked s = []"
    and live: "\<forall>as s. run as s0 = Some s \<and> (\<forall>a \<in> set as. \<not> is_producer a) \<longrightarrow>
          (\<exists>bs t. (\<forall>a \<in> set bs. \<not> is_producer a) \<and> run bs s = Some t
                 \<and> owner t = Destroyed \<and> invoked t = [])"
    by blast
  have "map_sum id (\<lambda>s0. map_option
          (\<lambda>s. (Threads s, owner s, bDestroyingPool s, PendingJobs s)) (run ?sched s0))
      (IterateWeighted exact 0 1 (\<lambda>p. 1) 3 (Objects 100 0)) =
      Inr (Some ([Checking], Joining 0, True, [ThreadJob_new iterSection [0, 0]]))"
    by code_simp
  then obtain s where s: "run ?sched s0 = Some s" "Threads s = [Checking]"
      "owner s = Joining 0" "bDestroyingPool s"
      "PendingJobs s = [ThreadJob_new iterSection [0, 0]]"
    using s0 by auto
  have np: "\<forall>a \<in> set ?sched. \<not> is_producer a"
    by simp
  from safe s(1) np have i: "invoked s = []"
    by blast
  from live s(1) np
  obtain bs t where "\<forall>a \<in> set bs. \<not> is_producer a" "run bs s = Some t"
      "owner t = Destroyed" "invoked t = []"
    by blast
  then have "\<exists>bs t. list_all (\<lambda>a. \<not> is_producer a) bs \<and> run bs s = Some t
      \<and> owner t = Destroyed \<and> invoked t = []"
    by (auto simp: list_all_iff)
  with e p s0 s i show ?thesis
    by auto
qed

section \<open>\<^verbatim>\<open>Iterate\<close> under the draining schedule\<close>

lemma concat_callback_indices_rev:
  "concat (map callback_indices
     (rev (map (\<lambda>i. ThreadJob_new_flag False iterCallback [i]) is))) = rev is"
  by (induction "is") (simp_all add: ThreadJob_new_flag_def callback_indices_def)

text \<open>
  The interleaving of claim C2's failing input is one of many: when the owner pushes and
  sets the flag before any worker looks at the queue, and worker 0 then takes every job,
  \<^verbatim>\<open>Iterate\<close> returns with the dispatcher called once for every index.
\<close>

lemma Iterate_can_complete:
  "\<exists>as s. run as (Iterate d cores poolSize data) = Some s \<and> owner s = Destroyed
     \<and> invoked s = rev [0 ..< elementCount data]"
proof -
  define n where "n = effectiveWorkers d cores poolSize (elementCount data)"
  define js where "js = map (\<lambda>i. ThreadJob_new_flag False iterCallback [i])
      [0 ..< elementCount data]"
  have n: "0 < n"
    using KThreadPool_count_ge1
      [of d cores "clampPoolSize cores poolSize (elementCount data)"]
    by (simp add: n_def effectiveWorkers_def)
  have push: "run [Owner] (Iterate d cores poolSize data) =
      Some \<lparr>PendingJobs = js, ActiveJobCount = 0, bDestroyingPool = False,
            Threads = replicate n Polling, owner = Submitting [], waiter = NotWaiting,
            executed = [],
      deleted = []\<rparr>"
    by (simp add: Iterate_def pool_record owner_step_def js_def n_def effectiveWorkers_def)
  have flag: "run [Owner]
      \<lparr>PendingJobs = js, ActiveJobCount = 0, bDestroyingPool = False,
            Threads = replicate n Polling, owner = Submitting [], waiter = NotWaiting,
            executed = [],
      deleted = []\<rparr> =
      Some \<lparr>PendingJobs = js, ActiveJobCount = 0, bDestroyingPool = True,
            Threads = replicate n Polling, owner = Joining 0, waiter = NotWaiting,
            executed = [],
      deleted = []\<rparr>"
    by (simp add: owner_step_def)
  have take: "run (concat (replicate (length js) [Worker 0, Worker 0, Worker 0]))
      \<lparr>PendingJobs = js, ActiveJobCount = 0, bDestroyingPool = True,
            Threads = replicate n Polling, owner = Joining 0, waiter = NotWaiting,
            executed = [],
      deleted = []\<rparr> =
      Some \<lparr>PendingJobs = [], ActiveJobCount = 0, bDestroyingPool = True,
            Threads = replicate n Polling, owner = Joining 0, waiter = NotWaiting,
            executed = [] @ rev js,
      deleted = [] @ filter bDeleteOnFinish (rev js)\<rparr>"
    using n by (intro run_take_all) simp_all
  have exit: "run (concat (map (\<lambda>i. [Worker i, Worker i]) [0 ..< n]))
      \<lparr>PendingJobs = [], ActiveJobCount = 0, bDestroyingPool = True,
            Threads = replicate n Polling, owner = Joining 0, waiter = NotWaiting,
            executed = [] @ rev js,
      deleted = [] @ filter bDeleteOnFinish (rev js)\<rparr> =
      Some \<lparr>PendingJobs = [], ActiveJobCount = 0, bDestroyingPool = True,
            Threads = replicate n Exited, owner = Joining 0, waiter = NotWaiting,
            executed = [] @ rev js,
      deleted = [] @ filter bDeleteOnFinish (rev js)\<rparr>"
    using run_exit_all [of "[]" n 0 "Joining 0" NotWaiting "[] @ rev js"
        "[] @ filter bDeleteOnFinish (rev js)"] by simp
  have join: "run (replicate (Suc n) Owner)
      \<lparr>PendingJobs = [], ActiveJobCount = 0, bDestroyingPool = True,
            Threads = replicate n Exited, owner = Joining 0, waiter = NotWaiting,
            executed = [] @ rev js,
      deleted = [] @ filter bDeleteOnFinish (rev js)\<rparr> =
      Some \<lparr>PendingJobs = [], ActiveJobCount = 0, bDestroyingPool = True,
            Threads = replicate n Exited, owner = Destroyed, waiter = NotWaiting,
            executed = [] @ rev js,
      deleted = [] @ filter bDeleteOnFinish (rev js)\<rparr>"
    by (intro run_join_all) simp_all
  have "run ([Owner] @ [Owner] @ concat (replicate (length js) [Worker 0, Worker 0, Worker 0])
        @ concat (map (\<lambda>i. [Worker i, Worker i]) [0 ..< n]) @ replicate (Suc n) Owner)
      (Iterate d cores poolSize data) =
      Some \<lparr>PendingJobs = [], ActiveJobCount = 0, bDestroyingPool = True,
            Threads = replicate n Exited, owner = Destroyed, waiter = NotWaiting,
            executed = [] @ rev js,
      deleted = [] @ filter bDeleteOnFinish (rev js)\<rparr>"
    using push flag take exit join by (simp only: run_append option.case)
  moreover have "invoked \<lparr>PendingJobs = [], ActiveJobCount = 0, bDestroyingPool = True,
            Threads = replicate n Exited, owner = Destroyed, waiter = NotWaiting,
            executed = [] @ rev js,
      deleted = [] @ filter bDeleteOnFinish (rev js)\<rparr> = rev [0 ..< elementCount data]"
    by (simp add: invoked_def js_def concat_callback_indices_rev)
  ultimately show ?thesis
    by (intro exI conjI) (assumption | simp)+
qed

section \<open>\<^verbatim>\<open>Iterate\<close>: no index twice, and which indices are lost\<close>

lemma mset_worker_jobs_update:
  "k < length ts \<Longrightarrow>
     mset (concat (map worker_jobs (ts[k := w]))) + mset (worker_jobs (ts ! k)) =
     mset (concat (map worker_jobs ts)) + mset (worker_jobs w)"
proof (induction ts arbitrary: k)
  case Nil
  then show ?case by simp
next
  case (Cons t ts)
  show ?case
  proof (cases k)
    case 0
    then show ?thesis by simp
  next
    case (Suc j)
    then have "j < length ts" using Cons.prems by simp
    from Cons.IH [OF this] show ?thesis
      using Suc by (simp add: ac_simps)
  qed
qed

text \<open>A step of the pool itself moves jobs from place to place; it makes and loses none.\<close>

lemma step_mset_all_jobs:
  assumes "step a s = Some s'" and "\<not> is_producer a"
  shows "mset (all_jobs s') = mset (all_jobs s)"
proof (cases a)
  case (Worker k)
  have ws: "worker_step k s = Some s'"
    using Worker assms(1) by simp
  then have k: "k < length (Threads s)"
    using worker_step_cases by blast
  note upd = mset_worker_jobs_update [OF k]
  from worker_step_cases [OF ws] show ?thesis
  proof (elim conjE disjE exE)
    assume "Threads s ! k = Polling" and "PendingJobs s \<noteq> []"
      and s': "s' = s\<lparr>PendingJobs := butlast (PendingJobs s),
             ActiveJobCount := ActiveJobCount s + 1,
             Threads := (Threads s)[k := Executing (last (PendingJobs s))]\<rparr>"
    have "mset (PendingJobs s) = mset (butlast (PendingJobs s) @ [last (PendingJobs s)])"
      using \<open>PendingJobs s \<noteq> []\<close> by simp
    also have "\<dots> = mset (butlast (PendingJobs s)) + {#last (PendingJobs s)#}"
      by (simp only: mset_append mset.simps)
    finally have pending:
      "mset (PendingJobs s) = mset (butlast (PendingJobs s)) + {#last (PendingJobs s)#}" .
    have held: "mset (concat (map worker_jobs
          ((Threads s)[k := Executing (last (PendingJobs s))])))
        = mset (concat (map worker_jobs (Threads s))) + {#last (PendingJobs s)#}"
      using upd [of "Executing (last (PendingJobs s))"] \<open>Threads s ! k = Polling\<close> by simp
    show ?thesis
      by (simp add: s' all_jobs_def pending held)
  next
    assume "Threads s ! k = Polling"
      and "s' = s\<lparr>Threads := (Threads s)[k := Checking]\<rparr>"
    then show ?thesis
      using upd [of Checking] by (simp add: all_jobs_def)
  next
    fix job
    assume "Threads s ! k = Executing job"
      and "s' = s\<lparr>executed := executed s @ [job],
               deleted := deleted s @ filter bDeleteOnFinish [job],
               Threads := (Threads s)[k := Finishing]\<rparr>"
    then show ?thesis
      using upd [of Finishing] by (simp add: all_jobs_def)
  next
    assume "Threads s ! k = Finishing"
      and "s' = s\<lparr>ActiveJobCount := ActiveJobCount s - 1,
               Threads := (Threads s)[k := Polling]\<rparr>"
    then show ?thesis
      using upd [of Polling] by (simp add: all_jobs_def)
  next
    assume "Threads s ! k = Checking"
      and "s' = s\<lparr>Threads := (Threads s)[k := Polling]\<rparr>"
    then show ?thesis
      using upd [of Polling] by (simp add: all_jobs_def)
  next
    assume "Threads s ! k = Checking"
      and "s' = s\<lparr>Threads := (Threads s)[k := Exited]\<rparr>"
    then show ?thesis
      using upd [of Exited] by (simp add: all_jobs_def)
  qed
next
  case Owner
  then show ?thesis
    using assms owner_step_cases [of s s'] by (auto simp: all_jobs_def)
next
  case Waiter
  then show ?thesis
    using assms waiter_step_cases [of s s'] by (auto simp: all_jobs_def)
next
  case (Producer func args)
  then show ?thesis using assms by simp
qed

lemma run_mset_all_jobs:
  "run as s = Some s' \<Longrightarrow> \<forall>a \<in> set as. \<not> is_producer a \<Longrightarrow>
     mset (all_jobs s') = mset (all_jobs s)"
proof (induction as arbitrary: s)
  case Nil
  then show ?case by simp
next
  case (Cons a as)
  then obtain t where t: "step a s = Some t" "run as t = Some s'"
    by (auto split: option.splits)
  have "mset (all_jobs t) = mset (all_jobs s)"
    using t(1) Cons.prems(2) by (simp add: step_mset_all_jobs)
  moreover have "mset (all_jobs s') = mset (all_jobs t)"
    using Cons.IH [OF t(2)] Cons.prems(2) by simp
  ultimately show ?case by simp
qed

lemma mset_concat_callback_indices:
  "mset (concat (map callback_indices
     (map (\<lambda>i. ThreadJob_new_flag False iterCallback [i]) is))) = mset is"
  by (induction "is") (simp_all add: ThreadJob_new_flag_def callback_indices_def)

lemma mset_concat_map:
  "mset (concat (map f xs)) = sum_mset (image_mset (\<lambda>x. mset (f x)) (mset xs))"
  by (induction xs) simp_all

lemma mset_concat_map_cong:
  "mset xs = mset ys \<Longrightarrow> mset (concat (map f xs)) = mset (concat (map f ys))"
  by (simp only: mset_concat_map)

lemma distinct_sub_upt:
  assumes "mset xs \<subseteq># mset [0 ..< n]"
  shows "distinct xs"
proof -
  have "count (mset xs) a = (if a \<in> set xs then 1 else 0)" for a
  proof (cases "a \<in> set xs")
    case True
    then have "0 < count (mset xs) a" by simp
    moreover have "count (mset xs) a \<le> count (mset [0 ..< n]) a"
      using assms by (rule mset_subset_eq_count)
    moreover have "count (mset [0 ..< n]) a \<le> 1"
      using distinct_upt [of 0 n] by (simp add: distinct_count_atmost_1)
    ultimately have "count (mset xs) a = 1" by linarith
    then show ?thesis using True by simp
  next
    case False
    then show ?thesis by (simp add: count_eq_zero_iff)
  qed
  then show ?thesis
    by (simp add: distinct_count_atmost_1)
qed

text \<open>
  Along every interleaving of the pool of \<^verbatim>\<open>Iterate\<close>, to which nobody else submits,
  the indices the dispatcher has seen so far together with the indices of the jobs that
  are still queued, held by a worker or not yet pushed are exactly the indices of the
  sequence, each once.  So no index is dispatched twice; and when \<^verbatim>\<open>Iterate\<close> has
  returned, the indices that were never dispatched are those of the jobs left in the
  queue.
\<close>

lemma Iterate_conserves_indices:
  assumes "run as (Iterate d cores poolSize data) = Some s"
    and "\<forall>a \<in> set as. \<not> is_producer a"
  shows "mset (invoked s)
      + mset (concat (map callback_indices
          (PendingJobs s @ owner_jobs (owner s) @ concat (map worker_jobs (Threads s)))))
      = mset [0 ..< elementCount data]"
    and "distinct (invoked s)"
    and "set (invoked s) \<subseteq> {0 ..< elementCount data}"
    and "owner s = Destroyed \<Longrightarrow>
      mset (invoked s) + mset (concat (map callback_indices (PendingJobs s)))
        = mset [0 ..< elementCount data]"
proof -
  let ?s0 = "Iterate d cores poolSize data"
  let ?rest = "PendingJobs s @ owner_jobs (owner s) @ concat (map worker_jobs (Threads s))"
  have start: "all_jobs ?s0 = map (\<lambda>i. ThreadJob_new_flag False iterCallback [i])
      [0 ..< elementCount data]"
    by (simp add: all_jobs_def Iterate_def pool_record no_worker_jobs_Polling)
  have "mset (all_jobs s) = mset (all_jobs ?s0)"
    using run_mset_all_jobs [OF assms] .
  then have "mset (concat (map callback_indices (all_jobs s))) =
      mset (concat (map callback_indices (all_jobs ?s0)))"
    by (rule mset_concat_map_cong)
  also have "\<dots> = mset [0 ..< elementCount data]"
    by (simp only: start mset_concat_callback_indices)
  finally have all: "mset (concat (map callback_indices (all_jobs s))) =
      mset [0 ..< elementCount data]" .
  have split: "mset (concat (map callback_indices (all_jobs s))) =
      mset (invoked s) + mset (concat (map callback_indices ?rest))"
    by (simp add: all_jobs_def invoked_def ac_simps)
  show total: "mset (invoked s) + mset (concat (map callback_indices ?rest))
      = mset [0 ..< elementCount data]"
    using all split by simp
  then have sub: "mset (invoked s) \<subseteq># mset [0 ..< elementCount data]"
    using mset_subset_eq_add_left [of "mset (invoked s)"] by metis
  then show "distinct (invoked s)"
    by (rule distinct_sub_upt)
  show "set (invoked s) \<subseteq> {0 ..< elementCount data}"
    using set_mset_mono [OF sub] by simp
  show "mset (invoked s) + mset (concat (map callback_indices (PendingJobs s)))
        = mset [0 ..< elementCount data]" if "owner s = Destroyed"
  proof -
    have "dtor_inv s"
      using run_dtor_inv [OF assms(1)] before_destructor_dtor_inv [of ?s0]
      by (simp add: Iterate_def)
    then have "\<forall>w \<in> set (Threads s). w = Exited"
      using that by (auto simp: dtor_inv_def in_set_conv_nth)
    then have none: "concat (map worker_jobs (Threads s)) = []"
      by (induction "Threads s") auto
    show ?thesis
      using total unfolding none that by simp
  qed
qed

end
